theory Spec2Isabelle
  imports Complex_Main
begin

section \<open>Behaviour trees: the fluent builder and the AlwaysFail decorator\<close>

text \<open>
  The development embeds two source files of the repository:
  \<^verbatim>\<open>behaviourTree/BehaviorTreeBuilder.ts\<close> (the stack-based builder) and
  \<^verbatim>\<open>behaviourTree/decorators/AlwaysFail.ts\<close> (one decorator's \<^verbatim>\<open>update\<close>).

  The builder wires objects that it shares by reference: a node that was attached to its
  parent is mutated afterwards, while it is a frame of the parent stack. The model
  therefore keeps an explicit store of node objects, addressed by references, and the
  parent stack, \<^verbatim>\<open>_currentNode\<close> and the child fields hold references.
  A TypeScript \<^verbatim>\<open>number\<close> is only ever stored here, never computed with; it is
  a \<^typ>\<open>real\<close>.
\<close>

subsection \<open>Data model\<close>

text \<open>
  Modelled from the spec: the enum \<^verbatim>\<open>TaskStatus\<close> is declared outside the two
  source files; the specification gives it the three values below.
\<close>

datatype TaskStatus = Success | Failure | Running

text \<open>
  The faults of the specification's taxonomy. In the source they are a failed
  \<^verbatim>\<open>Assert\<close> or a thrown \<^verbatim>\<open>Error\<close>, told apart by their message only.
\<close>

datatype fault = EmptyParentStack | NotAComposite | EmptyTree | MissingChild

type_synonym ref = nat

text \<open>
  Modelled from the spec: the node classes other than \<^verbatim>\<open>AlwaysFail\<close> are declared
  outside the two source files. \<^verbatim>\<open>AlwaysFail extends Decorator\<close> is in the source.
  The specification names sequence, selector, parallel and the repeater as composites, and
  inverter, always-succeed and conditional-decorator as decorators; the random and parallel
  selectors and the random sequence are taken as composites, and until-fail and
  until-success as decorators. No theorem below depends on the base class of any class
  other than \<^verbatim>\<open>AlwaysFail\<close>, \<^verbatim>\<open>Inverter\<close>, \<^verbatim>\<open>Sequence\<close> and \<^verbatim>\<open>Selector\<close>.
  The enum \<^verbatim>\<open>AbortTypes\<close> is declared elsewhere too: it is the type parameter
  \<open>'abort\<close>.
\<close>

datatype 'abort CompositeClass =
    Parallel
  | ParallelSelector
  | Selector 'abort
  | RandomSelector
  | Sequence 'abort
  | RandomSequence
  | Repeater real

datatype DecoratorClass =
    ConditionalDecorator ref bool
  | AlwaysFail
  | AlwaysSucceed
  | Inverter
  | UntilFail
  | UntilSuccess

text \<open>
  The runtime holder that \<^verbatim>\<open>build\<close> returns. The class \<^verbatim>\<open>BehaviorTree\<close> is declared
  outside the two source files; the builder only constructs it, from the context, the
  root and the update period.
\<close>

datatype 'ctx BehaviorTree =
  BehaviorTree (tree_context: 'ctx) (root: ref) (updatePeriod: real)

text \<open>
  A node object. A leaf is what the builder passes to its constructor
  (\<^verbatim>\<open>new ExecuteAction(func)\<close>, \<^verbatim>\<open>new LogAction(text)\<close>, ...). A composite owns the
  ordered list of its children, empty on a new composite; a decorator owns its
  \<^verbatim>\<open>child\<close> field, unset (\<open>None\<close>) on a new decorator. The functions given to
  \<^verbatim>\<open>action\<close> and \<^verbatim>\<open>conditional\<close> are stored, never called by the builder.
\<close>

datatype ('ctx, 'abort) Behavior =
    ExecuteAction "'ctx \<Rightarrow> TaskStatus"
  | ExecuteActionConditional "'ctx \<Rightarrow> TaskStatus"
  | LogAction string
  | WaitAciton real
  | BehaviorTreeReference "'ctx BehaviorTree"
  | Composite "'abort CompositeClass" "ref list"
  | Decorator DecoratorClass "ref option"

text \<open>
  The builder object (\<^verbatim>\<open>_context\<close>, \<^verbatim>\<open>_currentNode\<close>, \<^verbatim>\<open>_parentNodeStack\<close>)
  together with the store of the node objects created so far. The parent stack is an
  array whose top is its last element.
\<close>

record ('ctx, 'abort) BehaviorTreeBuilder =
  the_context :: 'ctx
  currentNode :: "ref option"
  parentNodeStack :: "ref list"
  heap :: "('ctx, 'abort) Behavior list"

text \<open>
  A builder method either returns the builder (\<open>Inr\<close>) or raises a fault; \<open>Inl\<close> carries
  the fault and the builder as the raise leaves it.
\<close>

type_synonym ('ctx, 'abort) outcome =
  "(fault \<times> ('ctx, 'abort) BehaviorTreeBuilder) + ('ctx, 'abort) BehaviorTreeBuilder"

subsection \<open>The store\<close>

definition lookup :: "'a list \<Rightarrow> ref \<Rightarrow> 'a option" where
  "lookup h r = (if r < length h then Some (h ! r) else None)"

text \<open>\<^verbatim>\<open>new C(...)\<close>: the new object gets the next free reference.\<close>

definition new :: "('ctx, 'abort) Behavior \<Rightarrow> ('ctx, 'abort) BehaviorTreeBuilder
    \<Rightarrow> ref \<times> ('ctx, 'abort) BehaviorTreeBuilder" where
  "new obj s = (length (heap s), s\<lparr>heap := heap s @ [obj]\<rparr>)"

subsection \<open>Helpers declared outside the source files\<close>

text \<open>
  Modelled from the spec: \<^verbatim>\<open>ArrayExt.peek\<close>, \<^verbatim>\<open>ArrayExt.pop\<close> and
  \<^verbatim>\<open>ArrayExt.push\<close> are not among the source files. The specification describes the
  parent stack as a sequence with append and remove at its end; peeking or popping an
  empty array yields \<^verbatim>\<open>undefined\<close> (\<open>None\<close>).
\<close>

definition peek :: "'a list \<Rightarrow> 'a option" where
  "peek xs = (if xs = [] then None else Some (last xs))"

definition pop :: "'a list \<Rightarrow> 'a option \<times> 'a list" where
  "pop xs = (peek xs, butlast xs)"

definition push :: "'a list \<Rightarrow> 'a \<Rightarrow> 'a list" where
  "push xs x = xs @ [x]"

text \<open>
  Modelled from the spec: \<^verbatim>\<open>Assert.isFalse\<close> and \<^verbatim>\<open>Assert.isTrue\<close> are not among
  the source files. By the specification a violated precondition makes the builder call
  fail, synchronously, with the fault of that precondition.
\<close>

definition Assert_isFalse :: "bool \<Rightarrow> fault \<Rightarrow> fault option" where
  "Assert_isFalse condition f = (if condition then Some f else None)"

definition Assert_isTrue :: "bool \<Rightarrow> fault \<Rightarrow> fault option" where
  "Assert_isTrue condition f = (if condition then None else Some f)"

text \<open>\<^verbatim>\<open>x instanceof Composite\<close> and \<^verbatim>\<open>x instanceof Decorator\<close>, for \<open>x\<close> a reference or
  \<^verbatim>\<open>undefined\<close>.\<close>

definition instanceof_Composite :: "('ctx, 'abort) Behavior list \<Rightarrow> ref option \<Rightarrow> bool" where
  "instanceof_Composite h x =
     (case x of None \<Rightarrow> False
      | Some r \<Rightarrow> (case lookup h r of Some (Composite k cs) \<Rightarrow> True | _ \<Rightarrow> False))"

definition instanceof_Decorator :: "('ctx, 'abort) Behavior list \<Rightarrow> ref option \<Rightarrow> bool" where
  "instanceof_Decorator h x =
     (case x of None \<Rightarrow> False
      | Some r \<Rightarrow> (case lookup h r of Some (Decorator k c) \<Rightarrow> True | _ \<Rightarrow> False))"

text \<open>
  Modelled from the spec: \<^verbatim>\<open>Composite.addChild\<close> is not among the source files; it
  appends the child to the composite's ordered children.
\<close>

definition addChild :: "ref \<Rightarrow> ref \<Rightarrow> ('ctx, 'abort) Behavior list \<Rightarrow> ('ctx, 'abort) Behavior list" where
  "addChild parent child h =
     (case lookup h parent of
        Some (Composite k cs) \<Rightarrow> h[parent := Composite k (cs @ [child])]
      | _ \<Rightarrow> h)"

text \<open>The assignment \<^verbatim>\<open>parent.child = child\<close> on a decorator.\<close>

definition set_child :: "ref \<Rightarrow> ref \<Rightarrow> ('ctx, 'abort) Behavior list \<Rightarrow> ('ctx, 'abort) Behavior list" where
  "set_child parent child h =
     (case lookup h parent of
        Some (Decorator k c) \<Rightarrow> h[parent := Decorator k (Some child)]
      | _ \<Rightarrow> h)"

subsection \<open>The builder\<close>

text \<open>\<^verbatim>\<open>BehaviorTreeBuilder.begin\<close>, that is the constructor: no current node, an empty parent
  stack. The builder starts on a store without objects.\<close>

definition begin_builder :: "'ctx \<Rightarrow> ('ctx, 'abort) BehaviorTreeBuilder" where
  "begin_builder c = \<lparr>the_context = c, currentNode = None, parentNodeStack = [], heap = []\<rparr>"

definition endDecorator :: "('ctx, 'abort) BehaviorTreeBuilder \<Rightarrow> ('ctx, 'abort) BehaviorTreeBuilder" where
  "endDecorator s =
     (let (top, rest) = pop (parentNodeStack s)
      in s\<lparr>currentNode := top, parentNodeStack := rest\<rparr>)"

definition setChildOnParent :: "ref \<Rightarrow> ('ctx, 'abort) BehaviorTreeBuilder
    \<Rightarrow> ('ctx, 'abort) BehaviorTreeBuilder" where
  "setChildOnParent child s =
     (let parent = peek (parentNodeStack s) in
      if instanceof_Composite (heap s) parent then
        (case parent of None \<Rightarrow> s
         | Some p \<Rightarrow> s\<lparr>heap := addChild p child (heap s)\<rparr>)
      else if instanceof_Decorator (heap s) parent then
        (case parent of None \<Rightarrow> s
         | Some p \<Rightarrow> endDecorator (s\<lparr>heap := set_child p child (heap s)\<rparr>))
      else s)"

definition pushParentNode :: "ref \<Rightarrow> ('ctx, 'abort) BehaviorTreeBuilder
    \<Rightarrow> ('ctx, 'abort) BehaviorTreeBuilder" where
  "pushParentNode composite s =
     (let s1 = (if length (parentNodeStack s) > 0 then setChildOnParent composite s else s)
      in s1\<lparr>parentNodeStack := push (parentNodeStack s1) composite\<rparr>)"

text \<open>
  The five leaf methods share one shape: the assertion on the parent stack, then the new
  leaf object, then \<^verbatim>\<open>setChildOnParent\<close>.
\<close>

definition add_leaf :: "('ctx, 'abort) Behavior \<Rightarrow> ('ctx, 'abort) BehaviorTreeBuilder
    \<Rightarrow> ('ctx, 'abort) outcome" where
  "add_leaf obj s =
     (case Assert_isFalse (length (parentNodeStack s) = 0) EmptyParentStack of
        Some f \<Rightarrow> Inl (f, s)
      | None \<Rightarrow> (let (r, s1) = new obj s in Inr (setChildOnParent r s1)))"

definition action :: "('ctx \<Rightarrow> TaskStatus) \<Rightarrow> ('ctx, 'abort) BehaviorTreeBuilder
    \<Rightarrow> ('ctx, 'abort) outcome" where
  "action func s = add_leaf (ExecuteAction func) s"

definition actionR :: "('ctx \<Rightarrow> bool) \<Rightarrow> ('ctx, 'abort) BehaviorTreeBuilder
    \<Rightarrow> ('ctx, 'abort) outcome" where
  "actionR func s = action (\<lambda>t. if func t then Success else Failure) s"

definition conditional :: "('ctx \<Rightarrow> TaskStatus) \<Rightarrow> ('ctx, 'abort) BehaviorTreeBuilder
    \<Rightarrow> ('ctx, 'abort) outcome" where
  "conditional func s = add_leaf (ExecuteActionConditional func) s"

definition conditionalR :: "('ctx \<Rightarrow> bool) \<Rightarrow> ('ctx, 'abort) BehaviorTreeBuilder
    \<Rightarrow> ('ctx, 'abort) outcome" where
  "conditionalR func s = conditional (\<lambda>t. if func t then Success else Failure) s"

definition logAction :: "string \<Rightarrow> ('ctx, 'abort) BehaviorTreeBuilder
    \<Rightarrow> ('ctx, 'abort) outcome" where
  "logAction text s = add_leaf (LogAction text) s"

definition waitAction :: "real \<Rightarrow> ('ctx, 'abort) BehaviorTreeBuilder
    \<Rightarrow> ('ctx, 'abort) outcome" where
  "waitAction waitTime s = add_leaf (WaitAciton waitTime) s"

definition subTree :: "'ctx BehaviorTree \<Rightarrow> ('ctx, 'abort) BehaviorTreeBuilder
    \<Rightarrow> ('ctx, 'abort) outcome" where
  "subTree t s = add_leaf (BehaviorTreeReference t) s"

text \<open>
  The methods that open a parent create the object and hand it to
  \<^verbatim>\<open>pushParentNode\<close>; none of them asserts anything. Default arguments
  (\<^verbatim>\<open>shouldReevaluate = true\<close>, \<^verbatim>\<open>abortType = AbortTypes.None\<close>,
  \<^verbatim>\<open>updatePeriod = 0.2\<close>) are left to the caller: every argument is explicit here.
\<close>

definition open_parent :: "('ctx, 'abort) Behavior \<Rightarrow> ('ctx, 'abort) BehaviorTreeBuilder
    \<Rightarrow> ('ctx, 'abort) BehaviorTreeBuilder" where
  "open_parent obj s = (let (r, s1) = new obj s in pushParentNode r s1)"

definition conditionalDecorator :: "('ctx \<Rightarrow> TaskStatus) \<Rightarrow> bool
    \<Rightarrow> ('ctx, 'abort) BehaviorTreeBuilder \<Rightarrow> ('ctx, 'abort) BehaviorTreeBuilder" where
  "conditionalDecorator func shouldReevaluate s =
     (let (conditional, s1) = new (ExecuteActionConditional func) s
      in open_parent (Decorator (ConditionalDecorator conditional shouldReevaluate) None) s1)"

definition conditionalDecoratorR :: "('ctx \<Rightarrow> bool) \<Rightarrow> bool
    \<Rightarrow> ('ctx, 'abort) BehaviorTreeBuilder \<Rightarrow> ('ctx, 'abort) BehaviorTreeBuilder" where
  "conditionalDecoratorR func shouldReevaluate s =
     conditionalDecorator (\<lambda>t. if func t then Success else Failure) shouldReevaluate s"

definition alwaysFail :: "('ctx, 'abort) BehaviorTreeBuilder \<Rightarrow> ('ctx, 'abort) BehaviorTreeBuilder" where
  "alwaysFail s = open_parent (Decorator AlwaysFail None) s"

definition alwaysSucceed :: "('ctx, 'abort) BehaviorTreeBuilder \<Rightarrow> ('ctx, 'abort) BehaviorTreeBuilder" where
  "alwaysSucceed s = open_parent (Decorator AlwaysSucceed None) s"

definition inverter :: "('ctx, 'abort) BehaviorTreeBuilder \<Rightarrow> ('ctx, 'abort) BehaviorTreeBuilder" where
  "inverter s = open_parent (Decorator Inverter None) s"

definition repeater :: "real \<Rightarrow> ('ctx, 'abort) BehaviorTreeBuilder \<Rightarrow> ('ctx, 'abort) BehaviorTreeBuilder" where
  "repeater count s = open_parent (Composite (Repeater count) []) s"

definition untilFail :: "('ctx, 'abort) BehaviorTreeBuilder \<Rightarrow> ('ctx, 'abort) BehaviorTreeBuilder" where
  "untilFail s = open_parent (Decorator UntilFail None) s"

definition untilSuccess :: "('ctx, 'abort) BehaviorTreeBuilder \<Rightarrow> ('ctx, 'abort) BehaviorTreeBuilder" where
  "untilSuccess s = open_parent (Decorator UntilSuccess None) s"

definition paraller :: "('ctx, 'abort) BehaviorTreeBuilder \<Rightarrow> ('ctx, 'abort) BehaviorTreeBuilder" where
  "paraller s = open_parent (Composite Parallel []) s"

definition parallelSelector :: "('ctx, 'abort) BehaviorTreeBuilder \<Rightarrow> ('ctx, 'abort) BehaviorTreeBuilder" where
  "parallelSelector s = open_parent (Composite ParallelSelector []) s"

definition selector :: "'abort \<Rightarrow> ('ctx, 'abort) BehaviorTreeBuilder \<Rightarrow> ('ctx, 'abort) BehaviorTreeBuilder" where
  "selector abortType s = open_parent (Composite (Selector abortType) []) s"

definition randomSelector :: "('ctx, 'abort) BehaviorTreeBuilder \<Rightarrow> ('ctx, 'abort) BehaviorTreeBuilder" where
  "randomSelector s = open_parent (Composite RandomSelector []) s"

definition sequence :: "'abort \<Rightarrow> ('ctx, 'abort) BehaviorTreeBuilder \<Rightarrow> ('ctx, 'abort) BehaviorTreeBuilder" where
  "sequence abortType s = open_parent (Composite (Sequence abortType) []) s"

definition randomSequence :: "('ctx, 'abort) BehaviorTreeBuilder \<Rightarrow> ('ctx, 'abort) BehaviorTreeBuilder" where
  "randomSequence s = open_parent (Composite RandomSequence []) s"

definition endComposite :: "('ctx, 'abort) BehaviorTreeBuilder \<Rightarrow> ('ctx, 'abort) outcome" where
  "endComposite s =
     (case Assert_isTrue (instanceof_Composite (heap s) (peek (parentNodeStack s))) NotAComposite of
        Some f \<Rightarrow> Inl (f, s)
      | None \<Rightarrow> (let (top, rest) = pop (parentNodeStack s)
                 in Inr (s\<lparr>currentNode := top, parentNodeStack := rest\<rparr>)))"

definition build :: "real \<Rightarrow> ('ctx, 'abort) BehaviorTreeBuilder \<Rightarrow> fault + 'ctx BehaviorTree" where
  "build period s =
     (case currentNode s of
        None \<Rightarrow> Inl EmptyTree
      | Some node \<Rightarrow> Inr (BehaviorTree (the_context s) node period))"

subsection \<open>The AlwaysFail decorator\<close>

text \<open>
  \<^verbatim>\<open>AlwaysFail.update\<close> calls \<^verbatim>\<open>this.child.update(context)\<close>, a method of whatever
  class the child has. The child is therefore given by its \<^verbatim>\<open>update\<close> method: a
  function of the context and of the mutable state \<open>'s\<close> it may read and write (its own
  fields, the context object), which returns a status or raises a fault. An unset child
  is \<open>None\<close>.

  Modelled from the spec: \<^verbatim>\<open>Assert.isNotNull\<close> is not among the source files; by the
  specification a decorator evaluated without a child fails with \<open>MissingChild\<close>.
\<close>

type_synonym ('ctx, 's) update = "'ctx \<Rightarrow> 's \<Rightarrow> (fault + TaskStatus) \<times> 's"

definition AlwaysFail_update :: "('ctx, 's) update option \<Rightarrow> ('ctx, 's) update" where
  "AlwaysFail_update child context st =
     (case child of
        None \<Rightarrow> (Inl MissingChild, st)
      | Some child_update \<Rightarrow>
          (case child_update context st of
             (Inl f, st1) \<Rightarrow> (Inl f, st1)
           | (Inr status, st1) \<Rightarrow>
               if status = Running then (Inr Running, st1) else (Inr Failure, st1)))"

subsection \<open>Call sequences\<close>

text \<open>
  A chain of builder calls \<^verbatim>\<open>begin(ctx).m1(...).m2(...)\<close> is a list of calls, run from
  left to right; the first fault ends the chain.
\<close>

datatype ('ctx, 'abort) call =
    Call_action "'ctx \<Rightarrow> TaskStatus"
  | Call_actionR "'ctx \<Rightarrow> bool"
  | Call_conditional "'ctx \<Rightarrow> TaskStatus"
  | Call_conditionalR "'ctx \<Rightarrow> bool"
  | Call_logAction string
  | Call_waitAction real
  | Call_subTree "'ctx BehaviorTree"
  | Call_conditionalDecorator "'ctx \<Rightarrow> TaskStatus" bool
  | Call_conditionalDecoratorR "'ctx \<Rightarrow> bool" bool
  | Call_alwaysFail
  | Call_alwaysSucceed
  | Call_inverter
  | Call_repeater real
  | Call_untilFail
  | Call_untilSuccess
  | Call_paraller
  | Call_parallelSelector
  | Call_selector 'abort
  | Call_randomSelector
  | Call_sequence 'abort
  | Call_randomSequence
  | Call_endComposite

fun invoke :: "('ctx, 'abort) call \<Rightarrow> ('ctx, 'abort) BehaviorTreeBuilder \<Rightarrow> ('ctx, 'abort) outcome" where
  "invoke (Call_action func) s = action func s"
| "invoke (Call_actionR func) s = actionR func s"
| "invoke (Call_conditional func) s = conditional func s"
| "invoke (Call_conditionalR func) s = conditionalR func s"
| "invoke (Call_logAction text) s = logAction text s"
| "invoke (Call_waitAction waitTime) s = waitAction waitTime s"
| "invoke (Call_subTree t) s = subTree t s"
| "invoke (Call_conditionalDecorator func b) s = Inr (conditionalDecorator func b s)"
| "invoke (Call_conditionalDecoratorR func b) s = Inr (conditionalDecoratorR func b s)"
| "invoke Call_alwaysFail s = Inr (alwaysFail s)"
| "invoke Call_alwaysSucceed s = Inr (alwaysSucceed s)"
| "invoke Call_inverter s = Inr (inverter s)"
| "invoke (Call_repeater count) s = Inr (repeater count s)"
| "invoke Call_untilFail s = Inr (untilFail s)"
| "invoke Call_untilSuccess s = Inr (untilSuccess s)"
| "invoke Call_paraller s = Inr (paraller s)"
| "invoke Call_parallelSelector s = Inr (parallelSelector s)"
| "invoke (Call_selector abortType) s = Inr (selector abortType s)"
| "invoke Call_randomSelector s = Inr (randomSelector s)"
| "invoke (Call_sequence abortType) s = Inr (sequence abortType s)"
| "invoke Call_randomSequence s = Inr (randomSequence s)"
| "invoke Call_endComposite s = endComposite s"

fun invoke_all :: "('ctx, 'abort) call list \<Rightarrow> ('ctx, 'abort) BehaviorTreeBuilder
    \<Rightarrow> ('ctx, 'abort) outcome" where
  "invoke_all [] s = Inr s"
| "invoke_all (c # cs) s =
     (case invoke c s of Inl e \<Rightarrow> Inl e | Inr s1 \<Rightarrow> invoke_all cs s1)"

text \<open>The builder as a chain of calls on \<^verbatim>\<open>begin(ctx)\<close> leaves it, fault or not.\<close>

definition state_after :: "('ctx, 'abort) call list \<Rightarrow> 'ctx \<Rightarrow> ('ctx, 'abort) BehaviorTreeBuilder" where
  "state_after cs c = (case invoke_all cs (begin_builder c) of Inl (f, s) \<Rightarrow> s | Inr s \<Rightarrow> s)"

text \<open>\<^verbatim>\<open>begin(ctx).m1(...)...mk(...).build(period)\<close>: a fault of the chain is the result.\<close>

definition build_after :: "('ctx, 'abort) call list \<Rightarrow> 'ctx \<Rightarrow> real \<Rightarrow> fault + 'ctx BehaviorTree" where
  "build_after cs c period =
     (case invoke_all cs (begin_builder c) of Inl (f, s) \<Rightarrow> Inl f | Inr s \<Rightarrow> build period s)"

text \<open>The leaf methods, the leaf object each creates, and the methods that open a parent.\<close>

fun is_leaf_call :: "('ctx, 'abort) call \<Rightarrow> bool" where
  "is_leaf_call (Call_action func) = True"
| "is_leaf_call (Call_actionR func) = True"
| "is_leaf_call (Call_conditional func) = True"
| "is_leaf_call (Call_conditionalR func) = True"
| "is_leaf_call (Call_logAction text) = True"
| "is_leaf_call (Call_waitAction waitTime) = True"
| "is_leaf_call (Call_subTree t) = True"
| "is_leaf_call c = False"

fun leaf_of :: "('ctx, 'abort) call \<Rightarrow> ('ctx, 'abort) Behavior option" where
  "leaf_of (Call_action func) = Some (ExecuteAction func)"
| "leaf_of (Call_actionR func) = Some (ExecuteAction (\<lambda>t. if func t then Success else Failure))"
| "leaf_of (Call_conditional func) = Some (ExecuteActionConditional func)"
| "leaf_of (Call_conditionalR func) =
     Some (ExecuteActionConditional (\<lambda>t. if func t then Success else Failure))"
| "leaf_of (Call_logAction text) = Some (LogAction text)"
| "leaf_of (Call_waitAction waitTime) = Some (WaitAciton waitTime)"
| "leaf_of (Call_subTree t) = Some (BehaviorTreeReference t)"
| "leaf_of c = None"

fun is_open_call :: "('ctx, 'abort) call \<Rightarrow> bool" where
  "is_open_call Call_endComposite = False"
| "is_open_call c = (\<not> is_leaf_call c)"

text \<open>The number of frames that a chain of calls pushes: one for each opening call.\<close>

definition opened :: "('ctx, 'abort) call list \<Rightarrow> nat" where
  "opened cs = length (filter is_open_call cs)"

text \<open>The leaf function \<^verbatim>\<open>_ => TaskStatus.Success\<close> of the specification's scenarios.\<close>

definition always_Success :: "unit \<Rightarrow> TaskStatus" where
  "always_Success t = Success"

subsection \<open>The shape of the store\<close>

text \<open>
  The children of a node object, and the nodes of the tree below a reference: the
  reference itself and whatever the children of a node of the tree reach.
\<close>

fun children_of :: "('ctx, 'abort) Behavior \<Rightarrow> ref list" where
  "children_of (Composite k cs) = cs"
| "children_of (Decorator k c) = (case c of None \<Rightarrow> [] | Some r \<Rightarrow> [r])"
| "children_of leaf = []"

inductive reaches :: "('ctx, 'abort) Behavior list \<Rightarrow> ref \<Rightarrow> ref \<Rightarrow> bool"
  for h :: "('ctx, 'abort) Behavior list" where
  reaches_self: "reaches h r r"
| reaches_child: "lookup h r = Some obj \<Longrightarrow> c \<in> set (children_of obj) \<Longrightarrow> reaches h c r'
    \<Longrightarrow> reaches h r r'"

text \<open>
  Invariants of the builder. Every frame of the parent stack is a composite or a
  decorator of the store, and only the top frame can be a decorator; every reference
  held by the builder or by a node is to an object of the store.
\<close>

definition frames_ok :: "('ctx, 'abort) BehaviorTreeBuilder \<Rightarrow> bool" where
  "frames_ok s \<longleftrightarrow>
     list_all (\<lambda>r. instanceof_Composite (heap s) (Some r) \<or> instanceof_Decorator (heap s) (Some r))
       (parentNodeStack s) \<and>
     list_all (\<lambda>r. instanceof_Composite (heap s) (Some r)) (butlast (parentNodeStack s))"

definition heap_closed :: "('ctx, 'abort) Behavior list \<Rightarrow> bool" where
  "heap_closed h \<longleftrightarrow> list_all (\<lambda>obj. list_all (\<lambda>c. c < length h) (children_of obj)) h"

definition refs_ok :: "('ctx, 'abort) BehaviorTreeBuilder \<Rightarrow> bool" where
  "refs_ok s \<longleftrightarrow>
     heap_closed (heap s) \<and>
     list_all (\<lambda>r. r < length (heap s)) (parentNodeStack s) \<and>
     (case currentNode s of None \<Rightarrow> True | Some c \<Rightarrow> c < length (heap s))"

text \<open>
  The frame that a step from one builder state to the next has closed: the top frame of
  the parent stack before the step, when it is no longer on the stack after it. The most
  recently closed frame of a chain of calls is the last frame so closed; the chain is
  followed as \<^const>\<open>invoke_all\<close> runs it, up to its first fault.
\<close>

definition popped :: "('ctx, 'abort) BehaviorTreeBuilder \<Rightarrow> ('ctx, 'abort) BehaviorTreeBuilder
    \<Rightarrow> ref option" where
  "popped s s1 =
     (case peek (parentNodeStack s) of
        None \<Rightarrow> None
      | Some p \<Rightarrow> if p \<in> set (parentNodeStack s1) then None else Some p)"

fun last_closed :: "('ctx, 'abort) call list \<Rightarrow> ('ctx, 'abort) BehaviorTreeBuilder
    \<Rightarrow> ref option \<Rightarrow> ref option" where
  "last_closed [] s recent = recent"
| "last_closed (c # cs) s recent =
     (case invoke c s of
        Inl e \<Rightarrow> recent
      | Inr s1 \<Rightarrow>
          last_closed cs s1 (case popped s s1 of None \<Rightarrow> recent | Some p \<Rightarrow> Some p))"

text \<open>
  The boolean-to-status mapping as the claim about \<^verbatim>\<open>actionR\<close> and \<^verbatim>\<open>conditionalR\<close>
  words it: \<open>Success\<close> when the function returns true, \<open>Failure\<close> when it returns false.
\<close>

definition status_of_bool :: "('ctx \<Rightarrow> bool) \<Rightarrow> 'ctx \<Rightarrow> TaskStatus" where
  "status_of_bool f t = (case f t of True \<Rightarrow> Success | False \<Rightarrow> Failure)"

subsection \<open>The parent stack and the store\<close>

lemma peek_simps [simp]: "peek [] = None" "peek (xs @ [x]) = Some x"
  by (simp_all add: peek_def)

lemma peek_Some_iff: "peek xs = Some p \<longleftrightarrow> xs \<noteq> [] \<and> last xs = p"
  by (simp add: peek_def)

lemma peek_SomeD: "peek xs = Some p \<Longrightarrow> xs = butlast xs @ [p]"
  by (auto simp: peek_def split: if_splits)

lemma lookup_append_old: "r < length h \<Longrightarrow> lookup (h @ xs) r = lookup h r"
  by (simp add: lookup_def nth_append)

lemma lookup_append_new [simp]: "lookup (h @ [x]) (length h) = Some x"
  by (simp add: lookup_def)

lemma lookup_update: "lookup (h[p := x]) r = (if r = p \<and> p < length h then Some x else lookup h r)"
  by (simp add: lookup_def)

lemma lookup_SomeD: "lookup h r = Some x \<Longrightarrow> r < length h"
  by (simp add: lookup_def split: if_splits)

lemma instanceof_Composite_iff:
  "instanceof_Composite h x \<longleftrightarrow> (\<exists>p k cs. x = Some p \<and> lookup h p = Some (Composite k cs))"
  by (auto simp: instanceof_Composite_def split: option.splits Behavior.splits)

lemma instanceof_Decorator_iff:
  "instanceof_Decorator h x \<longleftrightarrow> (\<exists>p k c. x = Some p \<and> lookup h p = Some (Decorator k c))"
  by (auto simp: instanceof_Decorator_def split: option.splits Behavior.splits)

lemma setChildOnParent_composite:
  assumes "peek (parentNodeStack s) = Some p" "lookup (heap s) p = Some (Composite k cs)"
  shows "setChildOnParent child s = s\<lparr>heap := (heap s)[p := Composite k (cs @ [child])]\<rparr>"
  using assms
  by (simp add: setChildOnParent_def instanceof_Composite_def addChild_def)

lemma setChildOnParent_decorator:
  assumes "peek (parentNodeStack s) = Some p" "lookup (heap s) p = Some (Decorator k c)"
  shows "setChildOnParent child s =
    s\<lparr>heap := (heap s)[p := Decorator k (Some child)], currentNode := Some p,
      parentNodeStack := butlast (parentNodeStack s)\<rparr>"
  using assms
  by (simp add: setChildOnParent_def instanceof_Composite_def instanceof_Decorator_def
      set_child_def endDecorator_def pop_def)

lemma setChildOnParent_other:
  assumes "\<not> instanceof_Composite (heap s) (peek (parentNodeStack s))"
    "\<not> instanceof_Decorator (heap s) (peek (parentNodeStack s))"
  shows "setChildOnParent child s = s"
  using assms by (simp add: setChildOnParent_def)

lemma top_cases:
  obtains (empty) "parentNodeStack s = []"
  | (composite) p k cs where "peek (parentNodeStack s) = Some p" "lookup (heap s) p = Some (Composite k cs)"
  | (decorator) p k c where "peek (parentNodeStack s) = Some p" "lookup (heap s) p = Some (Decorator k c)"
  | (other) "parentNodeStack s \<noteq> []" "\<not> instanceof_Composite (heap s) (peek (parentNodeStack s))"
      "\<not> instanceof_Decorator (heap s) (peek (parentNodeStack s))"
proof (cases "parentNodeStack s = []")
  case True
  then show ?thesis by (rule empty)
next
  case ne: False
  show ?thesis
  proof (cases "instanceof_Composite (heap s) (peek (parentNodeStack s))")
    case True
    then show ?thesis using composite by (auto simp: instanceof_Composite_iff)
  next
    case nc: False
    show ?thesis
    proof (cases "instanceof_Decorator (heap s) (peek (parentNodeStack s))")
      case True
      then show ?thesis using decorator by (auto simp: instanceof_Decorator_iff)
    next
      case False
      then show ?thesis using other ne nc by blast
    qed
  qed
qed

subsection \<open>The effect of each builder operation\<close>

lemma open_parent_empty:
  assumes "parentNodeStack s = []"
  shows "open_parent obj s = s\<lparr>heap := heap s @ [obj], parentNodeStack := [length (heap s)]\<rparr>"
  using assms by (simp add: open_parent_def new_def pushParentNode_def push_def)

lemma open_parent_composite:
  assumes "peek (parentNodeStack s) = Some p" "lookup (heap s) p = Some (Composite k cs)"
  shows "open_parent obj s =
    s\<lparr>heap := (heap s @ [obj])[p := Composite k (cs @ [length (heap s)])],
      parentNodeStack := parentNodeStack s @ [length (heap s)]\<rparr>"
proof -
  let ?s1 = "s\<lparr>heap := heap s @ [obj]\<rparr>"
  have p: "p < length (heap s)" using assms(2) by (rule lookup_SomeD)
  have ne: "parentNodeStack s \<noteq> []" using assms(1) by (simp add: peek_Some_iff)
  have "setChildOnParent (length (heap s)) ?s1 =
      ?s1\<lparr>heap := (heap ?s1)[p := Composite k (cs @ [length (heap s)])]\<rparr>"
    by (rule setChildOnParent_composite) (use assms p in \<open>simp_all add: lookup_append_old\<close>)
  then show ?thesis using ne
    by (simp add: open_parent_def new_def pushParentNode_def push_def)
qed

lemma open_parent_decorator:
  assumes "peek (parentNodeStack s) = Some p" "lookup (heap s) p = Some (Decorator k c)"
  shows "open_parent obj s =
    s\<lparr>heap := (heap s @ [obj])[p := Decorator k (Some (length (heap s)))],
      currentNode := Some p,
      parentNodeStack := butlast (parentNodeStack s) @ [length (heap s)]\<rparr>"
proof -
  let ?s1 = "s\<lparr>heap := heap s @ [obj]\<rparr>"
  have p: "p < length (heap s)" using assms(2) by (rule lookup_SomeD)
  have ne: "parentNodeStack s \<noteq> []" using assms(1) by (simp add: peek_Some_iff)
  have "setChildOnParent (length (heap s)) ?s1 =
      ?s1\<lparr>heap := (heap ?s1)[p := Decorator k (Some (length (heap s)))], currentNode := Some p,
        parentNodeStack := butlast (parentNodeStack ?s1)\<rparr>"
    by (rule setChildOnParent_decorator) (use assms p in \<open>simp_all add: lookup_append_old\<close>)
  then show ?thesis using ne
    by (simp add: open_parent_def new_def pushParentNode_def push_def)
qed

lemma add_leaf_empty:
  assumes "parentNodeStack s = []"
  shows "add_leaf obj s = Inl (EmptyParentStack, s)"
  using assms by (simp add: add_leaf_def Assert_isFalse_def)

lemma add_leaf_composite:
  assumes "peek (parentNodeStack s) = Some p" "lookup (heap s) p = Some (Composite k cs)"
  shows "add_leaf obj s =
    Inr (s\<lparr>heap := (heap s @ [obj])[p := Composite k (cs @ [length (heap s)])]\<rparr>)"
proof -
  let ?s1 = "s\<lparr>heap := heap s @ [obj]\<rparr>"
  have p: "p < length (heap s)" using assms(2) by (rule lookup_SomeD)
  have ne: "parentNodeStack s \<noteq> []" using assms(1) by (simp add: peek_Some_iff)
  have "setChildOnParent (length (heap s)) ?s1 =
      ?s1\<lparr>heap := (heap ?s1)[p := Composite k (cs @ [length (heap s)])]\<rparr>"
    by (rule setChildOnParent_composite) (use assms p in \<open>simp_all add: lookup_append_old\<close>)
  then show ?thesis using ne
    by (simp add: add_leaf_def Assert_isFalse_def new_def)
qed

lemma add_leaf_decorator:
  assumes "peek (parentNodeStack s) = Some p" "lookup (heap s) p = Some (Decorator k c)"
  shows "add_leaf obj s =
    Inr (s\<lparr>heap := (heap s @ [obj])[p := Decorator k (Some (length (heap s)))],
      currentNode := Some p, parentNodeStack := butlast (parentNodeStack s)\<rparr>)"
proof -
  let ?s1 = "s\<lparr>heap := heap s @ [obj]\<rparr>"
  have p: "p < length (heap s)" using assms(2) by (rule lookup_SomeD)
  have ne: "parentNodeStack s \<noteq> []" using assms(1) by (simp add: peek_Some_iff)
  have "setChildOnParent (length (heap s)) ?s1 =
      ?s1\<lparr>heap := (heap ?s1)[p := Decorator k (Some (length (heap s)))], currentNode := Some p,
        parentNodeStack := butlast (parentNodeStack ?s1)\<rparr>"
    by (rule setChildOnParent_decorator) (use assms p in \<open>simp_all add: lookup_append_old\<close>)
  then show ?thesis using ne
    by (simp add: add_leaf_def Assert_isFalse_def new_def)
qed

lemma endComposite_composite:
  assumes "peek (parentNodeStack s) = Some p" "lookup (heap s) p = Some (Composite k cs)"
  shows "endComposite s =
    Inr (s\<lparr>currentNode := Some p, parentNodeStack := butlast (parentNodeStack s)\<rparr>)"
  using assms
  by (simp add: endComposite_def Assert_isTrue_def instanceof_Composite_def pop_def)

lemma endComposite_not_composite:
  assumes "\<not> instanceof_Composite (heap s) (peek (parentNodeStack s))"
  shows "endComposite s = Inl (NotAComposite, s)"
  using assms by (simp add: endComposite_def Assert_isTrue_def)

lemma decorator_not_composite:
  "instanceof_Decorator h x \<Longrightarrow> \<not> instanceof_Composite h x"
  by (auto simp: instanceof_Composite_iff instanceof_Decorator_iff)

lemma invoke_leaf:
  assumes "is_leaf_call c"
  obtains obj where "leaf_of c = Some obj" "invoke c s = add_leaf obj s" "children_of obj = []"
  using assms
  by (cases c)
    (simp_all add: action_def actionR_def conditional_def conditionalR_def logAction_def
      waitAction_def subTree_def)

subsection \<open>Kinds of calls\<close>

lemma invoke_open:
  assumes "is_open_call c"
  shows "(\<exists>obj. invoke c s = Inr (open_parent obj s) \<and>
            ((\<exists>k. obj = Composite k []) \<or> (\<exists>d. obj = Decorator d None))) \<or>
         (\<exists>f b. invoke c s =
            Inr (open_parent (Decorator (ConditionalDecorator (length (heap s)) b) None)
              (s\<lparr>heap := heap s @ [ExecuteActionConditional f]\<rparr>)))"
  using assms
  by (cases c)
    (auto simp add: alwaysFail_def alwaysSucceed_def inverter_def repeater_def untilFail_def
      untilSuccess_def paraller_def parallelSelector_def selector_def randomSelector_def
      sequence_def randomSequence_def conditionalDecoratorR_def conditionalDecorator_def new_def)

lemma call_cases:
  obtains (leaf_call) "is_leaf_call c" | (open_call) "is_open_call c" | (end_call) "c = Call_endComposite"
  by (cases c) simp_all

subsection \<open>Invariants of the store\<close>

lemma frames_ok_iff:
  "frames_ok s \<longleftrightarrow>
     (\<forall>r \<in> set (parentNodeStack s). instanceof_Composite (heap s) (Some r) \<or> instanceof_Decorator (heap s) (Some r)) \<and>
     (\<forall>r \<in> set (butlast (parentNodeStack s)). instanceof_Composite (heap s) (Some r))"
  by (simp add: frames_ok_def list_all_iff)

lemma heap_closed_iff:
  "heap_closed h \<longleftrightarrow> (\<forall>obj \<in> set h. \<forall>c \<in> set (children_of obj). c < length h)"
  by (simp add: heap_closed_def list_all_iff)

lemma heap_closed_append:
  assumes "heap_closed h" "children_of x = []"
  shows "heap_closed (h @ [x])"
  using assms by (auto simp: heap_closed_iff less_Suc_eq)

lemma heap_closed_update:
  assumes "heap_closed h" "\<forall>c \<in> set (children_of x). c < length h"
  shows "heap_closed (h[p := x])"
proof -
  have "set (h[p := x]) \<subseteq> insert x (set h)" by (rule set_update_subset_insert)
  then show ?thesis using assms by (auto simp: heap_closed_iff)
qed

lemma heap_closed_lookup:
  assumes "heap_closed h" "lookup h p = Some obj" "c \<in> set (children_of obj)"
  shows "c < length h"
proof -
  have "obj \<in> set h" using assms(2) by (auto simp: lookup_def split: if_splits)
  then show ?thesis using assms(1,3) by (auto simp: heap_closed_iff)
qed

lemma refs_ok_iff:
  "refs_ok s \<longleftrightarrow>
     heap_closed (heap s) \<and>
     (\<forall>r \<in> set (parentNodeStack s). r < length (heap s)) \<and>
     (\<forall>c. currentNode s = Some c \<longrightarrow> c < length (heap s))"
  by (simp add: refs_ok_def list_all_iff split: option.splits)

lemma instanceof_append:
  "instanceof_Composite h (Some r) \<Longrightarrow> instanceof_Composite (h @ xs) (Some r)"
  "instanceof_Decorator h (Some r) \<Longrightarrow> instanceof_Decorator (h @ xs) (Some r)"
  by (auto simp: instanceof_Composite_iff instanceof_Decorator_iff lookup_def nth_append split: if_splits)

lemma instanceof_update_Composite:
  assumes "lookup h p = Some (Composite k cs)"
  shows "instanceof_Composite (h[p := Composite k cs']) (Some r) = instanceof_Composite h (Some r)"
    and "instanceof_Decorator (h[p := Composite k cs']) (Some r) = instanceof_Decorator h (Some r)"
  using assms
  by (auto simp: instanceof_Composite_iff instanceof_Decorator_iff lookup_update)

lemma instanceof_update_Decorator:
  assumes "lookup h p = Some (Decorator k c)"
  shows "instanceof_Composite (h[p := Decorator k c']) (Some r) = instanceof_Composite h (Some r)"
    and "instanceof_Decorator (h[p := Decorator k c']) (Some r) = instanceof_Decorator h (Some r)"
  using assms
  by (auto simp: instanceof_Composite_iff instanceof_Decorator_iff lookup_update)

lemma frames_ok_begin: "frames_ok (begin_builder c)"
  by (simp add: frames_ok_def begin_builder_def)

lemma refs_ok_begin: "refs_ok (begin_builder c)"
  by (simp add: refs_ok_def heap_closed_def begin_builder_def)

lemma frames_ok_alloc:
  assumes "frames_ok s"
  shows "frames_ok (s\<lparr>heap := heap s @ xs\<rparr>)"
  using assms by (auto simp: frames_ok_iff instanceof_append)

lemma refs_ok_alloc:
  assumes "refs_ok s" "children_of x = []"
  shows "refs_ok (s\<lparr>heap := heap s @ [x]\<rparr>)"
  using assms by (auto simp: refs_ok_iff heap_closed_append less_Suc_eq)

lemma frames_top_composite:
  assumes "frames_ok s" "peek (parentNodeStack s) = Some p" "instanceof_Composite (heap s) (Some p)"
    "r \<in> set (parentNodeStack s)"
  shows "instanceof_Composite (heap s) (Some r)"
proof -
  have "parentNodeStack s = butlast (parentNodeStack s) @ [p]" using assms(2) by (rule peek_SomeD)
  then have "r \<in> set (butlast (parentNodeStack s)) \<or> r = p"
    using assms(4) by (metis Un_iff empty_iff insert_iff list.set(1) list.set(2) set_append)
  then show ?thesis using assms(1,3) by (auto simp: frames_ok_iff)
qed

lemma frames_ok_open_parent:
  assumes "frames_ok s" "(\<exists>k. obj = Composite k []) \<or> (\<exists>d. obj = Decorator d None)"
  shows "frames_ok (open_parent obj s)"
proof (cases s rule: top_cases)
  case empty
  then show ?thesis using assms(2)
    by (auto simp: open_parent_empty frames_ok_iff instanceof_Composite_iff instanceof_Decorator_iff)
next
  case (composite p k cs)
  have c: "instanceof_Composite (heap s) (Some p)"
    using composite by (simp add: instanceof_Composite_iff)
  have all: "\<forall>r \<in> set (parentNodeStack s). instanceof_Composite (heap s) (Some r)"
    using frames_top_composite [OF assms(1) composite(1) c] by blast
  have lk: "lookup (heap s @ [obj]) p = Some (Composite k cs)"
    using composite(2) by (simp add: lookup_append_old lookup_SomeD)
  have new: "instanceof_Composite (heap s @ [obj]) (Some (length (heap s))) \<or>
      instanceof_Decorator (heap s @ [obj]) (Some (length (heap s)))"
    using assms(2) by (auto simp: instanceof_Composite_iff instanceof_Decorator_iff)
  have p: "p < length (heap s)" using composite(2) by (rule lookup_SomeD)
  show ?thesis using all new p
    by (auto simp: open_parent_composite [OF composite] frames_ok_iff
        instanceof_update_Composite [OF lk] instanceof_append)
next
  case (decorator p k c)
  have lk: "lookup (heap s @ [obj]) p = Some (Decorator k c)"
    using decorator(2) by (simp add: lookup_append_old lookup_SomeD)
  have new: "instanceof_Composite (heap s @ [obj]) (Some (length (heap s))) \<or>
      instanceof_Decorator (heap s @ [obj]) (Some (length (heap s)))"
    using assms(2) by (auto simp: instanceof_Composite_iff instanceof_Decorator_iff)
  have p: "p < length (heap s)" using decorator(2) by (rule lookup_SomeD)
  show ?thesis using assms(1) new p
    by (auto simp: open_parent_decorator [OF decorator] frames_ok_iff
        instanceof_update_Decorator [OF lk] instanceof_append dest: in_set_butlastD)
next
  case other
  obtain p where p: "peek (parentNodeStack s) = Some p" "p \<in> set (parentNodeStack s)"
    using other(1) by (auto simp: peek_def)
  then show ?thesis using assms(1) other by (auto simp: frames_ok_iff)
qed

subsection \<open>Every call preserves the invariants\<close>

lemma frames_cases:
  assumes "frames_ok s"
  obtains (empty) "parentNodeStack s = []"
  | (composite) p k cs where "peek (parentNodeStack s) = Some p" "lookup (heap s) p = Some (Composite k cs)"
  | (decorator) p k c where "peek (parentNodeStack s) = Some p" "lookup (heap s) p = Some (Decorator k c)"
proof (cases s rule: top_cases)
  case other
  obtain p where p: "peek (parentNodeStack s) = Some p" "p \<in> set (parentNodeStack s)"
    using other(1) by (auto simp: peek_def)
  then have False using assms other by (auto simp: frames_ok_iff)
  then show ?thesis ..
qed

lemma refs_ok_attach:
  assumes "refs_ok s" "children_of obj = []" "lookup (heap s) p = Some old"
    "\<forall>c \<in> set (children_of upd). c \<in> set (children_of old) \<or> c = length (heap s)"
    "set st \<subseteq> insert (length (heap s)) (set (parentNodeStack s))"
    "cur = currentNode s \<or> cur = Some p"
  shows "refs_ok (s\<lparr>heap := (heap s @ [obj])[p := upd], currentNode := cur, parentNodeStack := st\<rparr>)"
proof -
  have hc: "heap_closed (heap s)" using assms(1) by (simp add: refs_ok_iff)
  have p: "p < length (heap s)" using assms(3) by (rule lookup_SomeD)
  have old: "\<forall>c \<in> set (children_of old). c < length (heap s)"
    using heap_closed_lookup [OF hc assms(3)] by blast
  have "heap_closed (heap s @ [obj])" using hc assms(2) by (rule heap_closed_append)
  moreover have "\<forall>c \<in> set (children_of upd). c < length (heap s @ [obj])"
    using assms(4) old by (auto simp: less_Suc_eq)
  ultimately have "heap_closed ((heap s @ [obj])[p := upd])" by (rule heap_closed_update)
  moreover have "\<forall>r \<in> set st. r < Suc (length (heap s))"
    using assms(1,5) by (auto simp: refs_ok_iff less_Suc_eq)
  moreover have "\<forall>c. cur = Some c \<longrightarrow> c < Suc (length (heap s))"
    using assms(1,6) p by (auto simp: refs_ok_iff less_Suc_eq)
  ultimately show ?thesis by (simp add: refs_ok_iff)
qed

lemma refs_ok_open_parent:
  assumes "frames_ok s" "refs_ok s" "children_of obj = []"
  shows "refs_ok (open_parent obj s)"
  using assms(1)
proof (cases s rule: frames_cases)
  case empty
  have "heap_closed (heap s @ [obj])"
    using assms(2,3) by (simp add: refs_ok_iff heap_closed_append)
  then show ?thesis using assms(2)
    by (auto simp: open_parent_empty [OF empty] refs_ok_iff less_Suc_eq)
next
  case (composite p k cs)
  have "refs_ok (s\<lparr>heap := (heap s @ [obj])[p := Composite k (cs @ [length (heap s)])],
      currentNode := currentNode s, parentNodeStack := parentNodeStack s @ [length (heap s)]\<rparr>)"
    using assms(2,3) composite(2) by (rule refs_ok_attach) auto
  then show ?thesis by (simp add: open_parent_composite [OF composite])
next
  case (decorator p k c)
  have "refs_ok (s\<lparr>heap := (heap s @ [obj])[p := Decorator k (Some (length (heap s)))],
      currentNode := Some p, parentNodeStack := butlast (parentNodeStack s) @ [length (heap s)]\<rparr>)"
    using assms(2,3) decorator(2) by (rule refs_ok_attach) (auto dest: in_set_butlastD)
  then show ?thesis by (simp add: open_parent_decorator [OF decorator])
qed

lemma frames_ok_add_leaf:
  assumes "frames_ok s" "add_leaf obj s = Inr s'"
  shows "frames_ok s'"
  using assms(1)
proof (cases s rule: frames_cases)
  case empty
  then show ?thesis using assms(2) by (simp add: add_leaf_empty)
next
  case (composite p k cs)
  have lk: "lookup (heap s @ [obj]) p = Some (Composite k cs)"
    using composite(2) by (simp add: lookup_append_old lookup_SomeD)
  have "s' = s\<lparr>heap := (heap s @ [obj])[p := Composite k (cs @ [length (heap s)])]\<rparr>"
    using assms(2) by (simp add: add_leaf_composite [OF composite])
  then show ?thesis using assms(1)
    by (auto simp: frames_ok_iff instanceof_update_Composite [OF lk] instanceof_append)
next
  case (decorator p k c)
  have lk: "lookup (heap s @ [obj]) p = Some (Decorator k c)"
    using decorator(2) by (simp add: lookup_append_old lookup_SomeD)
  have "s' = s\<lparr>heap := (heap s @ [obj])[p := Decorator k (Some (length (heap s)))],
      currentNode := Some p, parentNodeStack := butlast (parentNodeStack s)\<rparr>"
    using assms(2) by (simp add: add_leaf_decorator [OF decorator])
  then show ?thesis using assms(1)
    by (auto simp: frames_ok_iff instanceof_update_Decorator [OF lk] instanceof_append
        dest: in_set_butlastD)
qed

lemma refs_ok_add_leaf:
  assumes "frames_ok s" "refs_ok s" "children_of obj = []" "add_leaf obj s = Inr s'"
  shows "refs_ok s'"
  using assms(1)
proof (cases s rule: frames_cases)
  case empty
  then show ?thesis using assms(4) by (simp add: add_leaf_empty)
next
  case (composite p k cs)
  have s': "s' = s\<lparr>heap := (heap s @ [obj])[p := Composite k (cs @ [length (heap s)])]\<rparr>"
    using assms(4) by (simp add: add_leaf_composite [OF composite])
  have "refs_ok (s\<lparr>heap := (heap s @ [obj])[p := Composite k (cs @ [length (heap s)])],
      currentNode := currentNode s, parentNodeStack := parentNodeStack s\<rparr>)"
    using assms(2,3) composite(2) by (rule refs_ok_attach) auto
  then show ?thesis by (simp add: s')
next
  case (decorator p k c)
  have s': "s' = s\<lparr>heap := (heap s @ [obj])[p := Decorator k (Some (length (heap s)))],
      currentNode := Some p, parentNodeStack := butlast (parentNodeStack s)\<rparr>"
    using assms(4) by (simp add: add_leaf_decorator [OF decorator])
  have "refs_ok (s\<lparr>heap := (heap s @ [obj])[p := Decorator k (Some (length (heap s)))],
      currentNode := Some p, parentNodeStack := butlast (parentNodeStack s)\<rparr>)"
    using assms(2,3) decorator(2) by (rule refs_ok_attach) (auto dest: in_set_butlastD)
  then show ?thesis by (simp add: s')
qed

lemma endComposite_Inr:
  assumes "endComposite s = Inr s'"
  obtains p k cs where "peek (parentNodeStack s) = Some p" "lookup (heap s) p = Some (Composite k cs)"
    "s' = s\<lparr>currentNode := Some p, parentNodeStack := butlast (parentNodeStack s)\<rparr>"
proof (cases "instanceof_Composite (heap s) (peek (parentNodeStack s))")
  case True
  then obtain p k cs where p: "peek (parentNodeStack s) = Some p" "lookup (heap s) p = Some (Composite k cs)"
    by (auto simp: instanceof_Composite_iff)
  then show ?thesis using assms that by (simp add: endComposite_composite [OF p])
next
  case False
  then show ?thesis using assms by (simp add: endComposite_not_composite)
qed

lemma frames_ok_endComposite:
  assumes "frames_ok s" "endComposite s = Inr s'"
  shows "frames_ok s'"
proof -
  obtain p k cs where p: "peek (parentNodeStack s) = Some p" "lookup (heap s) p = Some (Composite k cs)"
    "s' = s\<lparr>currentNode := Some p, parentNodeStack := butlast (parentNodeStack s)\<rparr>"
    using assms(2) by (rule endComposite_Inr)
  show ?thesis using assms(1)
    by (auto simp: p(3) frames_ok_iff dest: in_set_butlastD)
qed

lemma refs_ok_endComposite:
  assumes "refs_ok s" "endComposite s = Inr s'"
  shows "refs_ok s'"
proof -
  obtain p k cs where p: "peek (parentNodeStack s) = Some p" "lookup (heap s) p = Some (Composite k cs)"
    "s' = s\<lparr>currentNode := Some p, parentNodeStack := butlast (parentNodeStack s)\<rparr>"
    using assms(2) by (rule endComposite_Inr)
  have "p < length (heap s)" using p(2) by (rule lookup_SomeD)
  then show ?thesis using assms(1)
    by (auto simp: p(3) refs_ok_iff dest: in_set_butlastD)
qed

lemma open_call_cases:
  assumes "is_open_call c"
  obtains (plain) obj where "invoke c s = Inr (open_parent obj s)"
    "(\<exists>k. obj = Composite k []) \<or> (\<exists>d. obj = Decorator d None)"
  | (conditional) f b where "invoke c s =
      Inr (open_parent (Decorator (ConditionalDecorator (length (heap s)) b) None)
        (s\<lparr>heap := heap s @ [ExecuteActionConditional f]\<rparr>))"
  using invoke_open [OF assms, of s] by blast

lemma invariants_invoke:
  assumes "frames_ok s" "refs_ok s" "invoke c s = Inr s'"
  shows "frames_ok s' \<and> refs_ok s'"
proof (cases c rule: call_cases)
  case leaf_call
  then obtain obj where obj: "invoke c s = add_leaf obj s" "children_of obj = []"
    by (rule invoke_leaf)
  then show ?thesis
    using assms frames_ok_add_leaf [of s obj s'] refs_ok_add_leaf [of s obj s'] by simp
next
  case open_call
  then show ?thesis
  proof (cases rule: open_call_cases [where s = s])
    case (plain obj)
    moreover from plain(2) have "children_of obj = []" by auto
    ultimately show ?thesis
      using assms frames_ok_open_parent [of s obj] refs_ok_open_parent [of s obj] by simp
  next
    case (conditional f b)
    let ?s1 = "s\<lparr>heap := heap s @ [ExecuteActionConditional f]\<rparr>"
    let ?obj = "Decorator (ConditionalDecorator (length (heap s)) b) None"
    have "frames_ok ?s1" using assms(1) by (rule frames_ok_alloc)
    moreover have "refs_ok ?s1" using assms(2) by (rule refs_ok_alloc) simp
    ultimately show ?thesis
      using assms(3) conditional frames_ok_open_parent [of ?s1 ?obj] refs_ok_open_parent [of ?s1 ?obj]
      by simp
  qed
next
  case end_call
  then show ?thesis
    using assms frames_ok_endComposite [of s s'] refs_ok_endComposite [of s s'] by simp
qed

lemma invoke_all_Cons_Inr:
  assumes "invoke_all (c # cs) s = Inr s'"
  obtains s1 where "invoke c s = Inr s1" "invoke_all cs s1 = Inr s'"
  using assms by (auto split: sum.splits)

lemma invariants_invoke_all:
  assumes "frames_ok s" "refs_ok s" "invoke_all cs s = Inr s'"
  shows "frames_ok s' \<and> refs_ok s'"
  using assms
proof (induction cs arbitrary: s)
  case Nil
  then show ?case by simp
next
  case (Cons c cs)
  from Cons.prems(3) obtain s1 where s1: "invoke c s = Inr s1" "invoke_all cs s1 = Inr s'"
    by (rule invoke_all_Cons_Inr)
  have "frames_ok s1 \<and> refs_ok s1"
    using Cons.prems(1,2) s1(1) by (rule invariants_invoke)
  then show ?case using Cons.IH s1(2) by blast
qed

subsection \<open>What a call leaves untouched, and the nodes of a tree\<close>

lemma peek_in_set: "peek xs = Some p \<Longrightarrow> p \<in> set xs"
  by (auto simp: peek_def split: if_splits)

lemma frame_attach:
  assumes "lookup (heap t) p = Some old" "p \<in> set (parentNodeStack t)"
    "set st \<subseteq> insert (length (heap t)) (set (parentNodeStack t))"
  shows "length (heap t) \<le> length (heap (t\<lparr>heap := (heap t @ [obj])[p := upd], currentNode := cur, parentNodeStack := st\<rparr>)) \<and>
    (\<forall>r<length (heap t). r \<notin> set (parentNodeStack t) \<longrightarrow>
       lookup (heap (t\<lparr>heap := (heap t @ [obj])[p := upd], currentNode := cur, parentNodeStack := st\<rparr>)) r = lookup (heap t) r) \<and>
    set (parentNodeStack (t\<lparr>heap := (heap t @ [obj])[p := upd], currentNode := cur, parentNodeStack := st\<rparr>))
      \<subseteq> set (parentNodeStack t) \<union> {r. length (heap t) \<le> r}"
  using assms by (auto simp: lookup_update lookup_append_old)

lemma frame_open_parent:
  assumes "frames_ok t"
  shows "length (heap t) \<le> length (heap (open_parent obj t)) \<and>
    (\<forall>r<length (heap t). r \<notin> set (parentNodeStack t) \<longrightarrow>
       lookup (heap (open_parent obj t)) r = lookup (heap t) r) \<and>
    set (parentNodeStack (open_parent obj t)) \<subseteq> set (parentNodeStack t) \<union> {r. length (heap t) \<le> r}"
  using assms
proof (cases t rule: frames_cases)
  case empty
  then show ?thesis by (simp add: open_parent_empty lookup_append_old)
next
  case (composite p k cs)
  have "length (heap t) \<le> length (heap (t\<lparr>heap := (heap t @ [obj])[p := Composite k (cs @ [length (heap t)])],
      currentNode := currentNode t, parentNodeStack := parentNodeStack t @ [length (heap t)]\<rparr>)) \<and>
    (\<forall>r<length (heap t). r \<notin> set (parentNodeStack t) \<longrightarrow>
       lookup (heap (t\<lparr>heap := (heap t @ [obj])[p := Composite k (cs @ [length (heap t)])],
      currentNode := currentNode t, parentNodeStack := parentNodeStack t @ [length (heap t)]\<rparr>)) r = lookup (heap t) r) \<and>
    set (parentNodeStack (t\<lparr>heap := (heap t @ [obj])[p := Composite k (cs @ [length (heap t)])],
      currentNode := currentNode t, parentNodeStack := parentNodeStack t @ [length (heap t)]\<rparr>))
      \<subseteq> set (parentNodeStack t) \<union> {r. length (heap t) \<le> r}"
    using composite(2) peek_in_set [OF composite(1)] by (rule frame_attach) auto
  then show ?thesis by (simp add: open_parent_composite [OF composite])
next
  case (decorator p k c)
  have "length (heap t) \<le> length (heap (t\<lparr>heap := (heap t @ [obj])[p := Decorator k (Some (length (heap t)))],
      currentNode := Some p, parentNodeStack := butlast (parentNodeStack t) @ [length (heap t)]\<rparr>)) \<and>
    (\<forall>r<length (heap t). r \<notin> set (parentNodeStack t) \<longrightarrow>
       lookup (heap (t\<lparr>heap := (heap t @ [obj])[p := Decorator k (Some (length (heap t)))],
      currentNode := Some p, parentNodeStack := butlast (parentNodeStack t) @ [length (heap t)]\<rparr>)) r = lookup (heap t) r) \<and>
    set (parentNodeStack (t\<lparr>heap := (heap t @ [obj])[p := Decorator k (Some (length (heap t)))],
      currentNode := Some p, parentNodeStack := butlast (parentNodeStack t) @ [length (heap t)]\<rparr>))
      \<subseteq> set (parentNodeStack t) \<union> {r. length (heap t) \<le> r}"
    using decorator(2) peek_in_set [OF decorator(1)] by (rule frame_attach) (auto dest: in_set_butlastD)
  then show ?thesis by (simp add: open_parent_decorator [OF decorator])
qed

lemma frame_add_leaf:
  assumes "frames_ok t" "add_leaf obj t = Inr t'"
  shows "length (heap t) \<le> length (heap t') \<and>
    (\<forall>r<length (heap t). r \<notin> set (parentNodeStack t) \<longrightarrow> lookup (heap t') r = lookup (heap t) r) \<and>
    set (parentNodeStack t') \<subseteq> set (parentNodeStack t) \<union> {r. length (heap t) \<le> r}"
  using assms(1)
proof (cases t rule: frames_cases)
  case empty
  then show ?thesis using assms(2) by (simp add: add_leaf_empty)
next
  case (composite p k cs)
  have t': "t' = t\<lparr>heap := (heap t @ [obj])[p := Composite k (cs @ [length (heap t)])],
      currentNode := currentNode t, parentNodeStack := parentNodeStack t\<rparr>"
    using assms(2) by (auto simp: add_leaf_composite [OF composite])
  show ?thesis unfolding t'
    using composite(2) peek_in_set [OF composite(1)] by (rule frame_attach) auto
next
  case (decorator p k c)
  have t': "t' = t\<lparr>heap := (heap t @ [obj])[p := Decorator k (Some (length (heap t)))],
      currentNode := Some p, parentNodeStack := butlast (parentNodeStack t)\<rparr>"
    using assms(2) by (simp add: add_leaf_decorator [OF decorator])
  show ?thesis unfolding t'
    using decorator(2) peek_in_set [OF decorator(1)] by (rule frame_attach) (auto dest: in_set_butlastD)
qed

lemma frame_invoke:
  assumes "frames_ok t" "invoke c t = Inr t'"
  shows "length (heap t) \<le> length (heap t') \<and>
    (\<forall>r<length (heap t). r \<notin> set (parentNodeStack t) \<longrightarrow> lookup (heap t') r = lookup (heap t) r) \<and>
    set (parentNodeStack t') \<subseteq> set (parentNodeStack t) \<union> {r. length (heap t) \<le> r}"
proof (cases c rule: call_cases)
  case leaf_call
  then obtain obj where obj: "invoke c t = add_leaf obj t"
    by (rule invoke_leaf)
  then show ?thesis using assms frame_add_leaf [of t obj t'] by simp
next
  case open_call
  then show ?thesis
  proof (cases rule: open_call_cases [where s = t])
    case (plain obj)
    then show ?thesis using assms frame_open_parent [of t obj] by simp
  next
    case (conditional f b)
    let ?t1 = "t\<lparr>heap := heap t @ [ExecuteActionConditional f]\<rparr>"
    let ?obj = "Decorator (ConditionalDecorator (length (heap t)) b) None"
    have "frames_ok ?t1" using assms(1) by (rule frames_ok_alloc)
    from frame_open_parent [OF this, of ?obj] conditional assms(2)
    show ?thesis by (auto simp: lookup_append_old less_Suc_eq)
  qed
next
  case end_call
  then obtain p k cs where "t' = t\<lparr>currentNode := Some p, parentNodeStack := butlast (parentNodeStack t)\<rparr>"
    using assms(2) by (auto elim: endComposite_Inr)
  then show ?thesis by (auto dest: in_set_butlastD)
qed

lemma frame_invoke_all:
  assumes "frames_ok t" "refs_ok t" "invoke_all cs t = Inr t'"
    "\<forall>r \<in> X. r < length (heap t) \<and> r \<notin> set (parentNodeStack t)"
  shows "\<forall>r \<in> X. lookup (heap t') r = lookup (heap t) r \<and> r \<notin> set (parentNodeStack t')"
  using assms
proof (induction cs arbitrary: t)
  case Nil
  then show ?case by simp
next
  case (Cons c cs)
  from Cons.prems(3) obtain t1 where t1: "invoke c t = Inr t1" "invoke_all cs t1 = Inr t'"
    by (rule invoke_all_Cons_Inr)
  have inv1: "frames_ok t1 \<and> refs_ok t1"
    using Cons.prems(1,2) t1(1) by (rule invariants_invoke)
  note fr = frame_invoke [OF Cons.prems(1) t1(1)]
  have X1: "\<forall>r \<in> X. r < length (heap t1) \<and> r \<notin> set (parentNodeStack t1)"
    using fr Cons.prems(4) by fastforce
  have "\<forall>r \<in> X. lookup (heap t') r = lookup (heap t1) r \<and> r \<notin> set (parentNodeStack t')"
    using inv1 t1(2) X1 Cons.IH by blast
  moreover have "\<forall>r \<in> X. lookup (heap t1) r = lookup (heap t) r"
    using fr Cons.prems(4) by simp
  ultimately show ?case by simp
qed

lemma reaches_valid:
  assumes "reaches h c r" "heap_closed h" "c < length h"
  shows "r < length h"
  using assms
proof (induction rule: reaches.induct)
  case (reaches_self r)
  then show ?case by simp
next
  case (reaches_child r obj c r')
  then show ?case using heap_closed_lookup by blast
qed

lemma reaches_snoc:
  assumes "reaches h c a" "lookup h a = Some obj" "x \<in> set (children_of obj)"
  shows "reaches h c x"
  using assms
proof (induction rule: reaches.induct)
  case (reaches_self r)
  then show ?case by (meson reaches.intros)
next
  case (reaches_child r obj' c' r')
  then show ?case by (meson reaches.intros)
qed

lemma reaches_stable_to:
  assumes "reaches h a r" "reaches h c a" "\<forall>x. reaches h c x \<longrightarrow> lookup h' x = lookup h x"
  shows "reaches h' a r"
  using assms
proof (induction rule: reaches.induct)
  case (reaches_self r)
  show ?case by (rule reaches.reaches_self)
next
  case (reaches_child r obj x r')
  have "lookup h' r = Some obj" using reaches_child.prems reaches_child.hyps(1) by simp
  moreover have "reaches h c x"
    using reaches_child.prems(1) reaches_child.hyps(1,2) by (rule reaches_snoc)
  ultimately show ?case
    using reaches_child.hyps(2) reaches_child.IH reaches_child.prems(2)
    by (meson reaches.reaches_child)
qed

lemma reaches_stable_from:
  assumes "reaches h' a r" "reaches h c a" "\<forall>x. reaches h c x \<longrightarrow> lookup h' x = lookup h x"
  shows "reaches h a r"
  using assms
proof (induction rule: reaches.induct)
  case (reaches_self r)
  show ?case by (rule reaches.reaches_self)
next
  case (reaches_child r obj x r')
  have lk: "lookup h r = Some obj" using reaches_child.prems reaches_child.hyps(1) by simp
  then have "reaches h c x"
    using reaches_child.prems(1) reaches_child.hyps(2) by (meson reaches_snoc)
  then show ?case
    using lk reaches_child.hyps(2) reaches_child.IH reaches_child.prems(2)
    by (meson reaches.reaches_child)
qed

lemma reaches_stable:
  assumes "\<forall>x. reaches h c x \<longrightarrow> lookup h' x = lookup h x"
  shows "reaches h' c r \<longleftrightarrow> reaches h c r"
  using assms reaches_stable_to [of h c r c h'] reaches_stable_from [of h' c r h c]
  by (meson reaches.reaches_self)

subsection \<open>The decorator, the leaf precondition, closing a composite\<close>

lemma invoke_all_append:
  "invoke_all (cs @ ds) s =
     (case invoke_all cs s of Inl e \<Rightarrow> Inl e | Inr s1 \<Rightarrow> invoke_all ds s1)"
  by (induction cs arbitrary: s) (simp_all split: sum.splits)

lemma invoke_all_single: "invoke_all [c] s = invoke c s"
  by (simp split: sum.splits)

lemma invoke_all_snoc:
  "invoke_all cs s0 = Inr s \<Longrightarrow> invoke_all (cs @ [c]) s0 = invoke c s"
  by (simp add: invoke_all_append invoke_all_single del: invoke_all.simps)

text \<open>
  Claim C2. For every context and every child whose evaluation returns a status,
  \<^verbatim>\<open>AlwaysFail.update\<close> returns \<open>Running\<close> when the child returns \<open>Running\<close>,
  \<open>Failure\<close> when the child returns \<open>Success\<close>, and \<open>Failure\<close> when the child returns
  \<open>Failure\<close>; the state is as the child's evaluation leaves it.
\<close>

theorem AlwaysFail_update_status:
  assumes "child context st = (Inr status, st1)"
  shows "AlwaysFail_update (Some child) context st =
    (Inr (case status of Running \<Rightarrow> Running | Success \<Rightarrow> Failure | Failure \<Rightarrow> Failure), st1)"
  using assms by (cases status) (simp_all add: AlwaysFail_update_def)

theorem AlwaysFail_update_status_witness:
  "AlwaysFail_update (Some (\<lambda>c n. (Inr (if n = (0::nat) then Running else if c then Success else Failure), Suc n)))
     True (0::nat) = (Inr Running, 1) \<and>
   AlwaysFail_update (Some (\<lambda>c n. (Inr (if n = (0::nat) then Running else if c then Success else Failure), Suc n)))
     True (1::nat) = (Inr Failure, 2) \<and>
   AlwaysFail_update (Some (\<lambda>c n. (Inr (if n = (0::nat) then Running else if c then Success else Failure), Suc n)))
     False (1::nat) = (Inr Failure, 2)"
  using
    AlwaysFail_update_status [of "\<lambda>c n. (Inr (if n = (0::nat) then Running else if c then Success else Failure), Suc n)"
      True 0 Running 1]
    AlwaysFail_update_status [of "\<lambda>c n. (Inr (if n = (0::nat) then Running else if c then Success else Failure), Suc n)"
      True 1 Success 2]
    AlwaysFail_update_status [of "\<lambda>c n. (Inr (if n = (0::nat) then Running else if c then Success else Failure), Suc n)"
      False 1 Failure 2]
  by simp

text \<open>
  Claim C3. After any chain of calls that leaves the parent stack empty, each of the leaf
  methods (\<^verbatim>\<open>action\<close>, \<^verbatim>\<open>actionR\<close>, \<^verbatim>\<open>conditional\<close>, \<^verbatim>\<open>conditionalR\<close>,
  \<^verbatim>\<open>logAction\<close>, \<^verbatim>\<open>waitAction\<close>, \<^verbatim>\<open>subTree\<close>) fails with \<open>EmptyParentStack\<close>,
  and the builder is left as it was: nothing is created and nothing is attached.
\<close>

theorem leaf_on_empty_stack:
  assumes "invoke_all cs s0 = Inr s" "parentNodeStack s = []" "is_leaf_call c"
  shows "invoke c s = Inl (EmptyParentStack, s) \<and>
    invoke_all (cs @ [c]) s0 = Inl (EmptyParentStack, s)"
proof -
  obtain obj where "invoke c s = add_leaf obj s"
    using assms(3) by (rule invoke_leaf)
  then have "invoke c s = Inl (EmptyParentStack, s)"
    using assms(2) by (simp add: add_leaf_empty)
  then show ?thesis using assms(1) by (simp add: invoke_all_snoc del: invoke_all.simps)
qed

theorem leaf_on_empty_stack_witness:
  "invoke (Call_logAction ''hello'') (begin_builder () :: (unit, unit) BehaviorTreeBuilder)
     = Inl (EmptyParentStack, begin_builder ()) \<and>
   invoke_all ([] @ [Call_logAction ''hello'']) (begin_builder () :: (unit, unit) BehaviorTreeBuilder)
     = Inl (EmptyParentStack, begin_builder ())"
  using leaf_on_empty_stack [of "[]" "begin_builder () :: (unit, unit) BehaviorTreeBuilder"
      "begin_builder ()" "Call_logAction ''hello''"]
  by (simp add: begin_builder_def)

text \<open>
  Claim C4. After any chain of calls, \<^verbatim>\<open>endComposite()\<close> fails with \<open>NotAComposite\<close>
  while the top frame of the parent stack is a decorator, leaving the builder as it was;
  when the top frame is a composite, \<^verbatim>\<open>endComposite()\<close> pops it and records it as
  \<^verbatim>\<open>_currentNode\<close>.
\<close>

theorem endComposite_top_frame:
  assumes "invoke_all cs s0 = Inr s"
  shows "(instanceof_Decorator (heap s) (peek (parentNodeStack s)) \<longrightarrow>
      endComposite s = Inl (NotAComposite, s) \<and>
      invoke_all (cs @ [Call_endComposite]) s0 = Inl (NotAComposite, s)) \<and>
    (instanceof_Composite (heap s) (peek (parentNodeStack s)) \<longrightarrow>
      endComposite s =
        Inr (s\<lparr>currentNode := peek (parentNodeStack s),
          parentNodeStack := butlast (parentNodeStack s)\<rparr>) \<and>
      invoke_all (cs @ [Call_endComposite]) s0 =
        Inr (s\<lparr>currentNode := peek (parentNodeStack s),
          parentNodeStack := butlast (parentNodeStack s)\<rparr>))"
proof -
  have snoc: "invoke_all (cs @ [Call_endComposite]) s0 = endComposite s"
    using assms by (simp add: invoke_all_snoc del: invoke_all.simps)
  have "endComposite s = Inl (NotAComposite, s)"
    if "instanceof_Decorator (heap s) (peek (parentNodeStack s))"
    using that by (simp add: endComposite_not_composite decorator_not_composite)
  moreover have "endComposite s =
      Inr (s\<lparr>currentNode := peek (parentNodeStack s), parentNodeStack := butlast (parentNodeStack s)\<rparr>)"
    if "instanceof_Composite (heap s) (peek (parentNodeStack s))"
    using that by (auto simp: instanceof_Composite_iff endComposite_composite)
  ultimately show ?thesis using snoc by simp
qed

theorem endComposite_top_frame_witness:
  "instanceof_Decorator (heap (alwaysFail (begin_builder ()) :: (unit, unit) BehaviorTreeBuilder))
     (peek (parentNodeStack (alwaysFail (begin_builder ()) :: (unit, unit) BehaviorTreeBuilder))) \<and>
   invoke_all ([Call_alwaysFail] @ [Call_endComposite]) (begin_builder () :: (unit, unit) BehaviorTreeBuilder)
     = Inl (NotAComposite, alwaysFail (begin_builder ())) \<and>
   instanceof_Composite (heap (sequence () (begin_builder ()) :: (unit, unit) BehaviorTreeBuilder))
     (peek (parentNodeStack (sequence () (begin_builder ()) :: (unit, unit) BehaviorTreeBuilder))) \<and>
   invoke_all ([Call_sequence ()] @ [Call_endComposite]) (begin_builder () :: (unit, unit) BehaviorTreeBuilder)
     = Inr \<lparr>the_context = (), currentNode = Some 0, parentNodeStack = [],
         heap = [Composite (Sequence ()) []]\<rparr>"
  using
    endComposite_top_frame [of "[Call_alwaysFail]" "begin_builder () :: (unit, unit) BehaviorTreeBuilder"
      "alwaysFail (begin_builder ())"]
    endComposite_top_frame [of "[Call_sequence ()]" "begin_builder () :: (unit, unit) BehaviorTreeBuilder"
      "sequence () (begin_builder ())"]
  by (simp add: begin_builder_def alwaysFail_def sequence_def open_parent_def new_def
      pushParentNode_def push_def peek_def instanceof_Decorator_def instanceof_Composite_def
      lookup_def)

text \<open>
  Claim C10. For every boolean function \<open>f\<close> and every builder state, \<^verbatim>\<open>actionR(f)\<close> has
  the effect of \<^verbatim>\<open>action\<close> on the function that returns \<open>Success\<close> when \<open>f\<close> returns
  true and \<open>Failure\<close> when it returns false, and \<^verbatim>\<open>conditionalR(f)\<close> that of
  \<^verbatim>\<open>conditional\<close> on the same function: the same fault or the same resulting builder,
  with the same node attached.
\<close>

theorem actionR_conditionalR_refine:
  "actionR f s = action (status_of_bool f) s \<and>
   conditionalR f s = conditional (status_of_bool f) s \<and>
   invoke (Call_actionR f) s = invoke (Call_action (status_of_bool f)) s \<and>
   invoke (Call_conditionalR f) s = invoke (Call_conditional (status_of_bool f)) s"
proof -
  have "(\<lambda>t. if f t then Success else Failure) = status_of_bool f"
    by (rule ext) (simp add: status_of_bool_def)
  then show ?thesis by (simp add: actionR_def conditionalR_def)
qed

subsection \<open>Children of an open composite\<close>

lemma leaves_on_composite:
  assumes "peek (parentNodeStack s) = Some p" "lookup (heap s) p = Some (Composite k cs)"
    "list_all is_leaf_call ls"
  shows "\<exists>s'. invoke_all ls s = Inr s' \<and> parentNodeStack s' = parentNodeStack s \<and>
    currentNode s' = currentNode s \<and>
    length (heap s') = length (heap s) + length ls \<and>
    lookup (heap s') p = Some (Composite k (cs @ [length (heap s)..<length (heap s) + length ls])) \<and>
    (\<forall>r<length (heap s). r \<noteq> p \<longrightarrow> lookup (heap s') r = lookup (heap s) r) \<and>
    map (lookup (heap s')) [length (heap s)..<length (heap s) + length ls] = map leaf_of ls"
  using assms
proof (induction ls arbitrary: s cs)
  case Nil
  then show ?case by simp
next
  case (Cons c ls)
  let ?n = "length (heap s)"
  have p: "p < ?n" using Cons.prems(2) by (rule lookup_SomeD)
  have leaf: "is_leaf_call c" and leaves: "list_all is_leaf_call ls"
    using Cons.prems(3) by simp_all
  obtain obj where obj: "leaf_of c = Some obj" "invoke c s = add_leaf obj s"
    using leaf by (rule invoke_leaf)
  define s1 where "s1 = s\<lparr>heap := (heap s @ [obj])[p := Composite k (cs @ [?n])]\<rparr>"
  have step: "invoke c s = Inr s1"
    using obj(2) add_leaf_composite [OF Cons.prems(1,2)] by (simp add: s1_def)
  have top1: "peek (parentNodeStack s1) = Some p"
    using Cons.prems(1) by (simp add: s1_def)
  have len1: "length (heap s1) = Suc ?n" by (simp add: s1_def)
  have comp1: "lookup (heap s1) p = Some (Composite k (cs @ [?n]))"
    using p by (simp add: s1_def lookup_update)
  have old1: "lookup (heap s1) r = lookup (heap s) r" if "r < ?n" "r \<noteq> p" for r
    using that by (simp add: s1_def lookup_update lookup_append_old)
  have new1: "lookup (heap s1) ?n = Some obj"
    using p by (simp add: s1_def lookup_update)
  from Cons.IH [OF top1 comp1 leaves] obtain s' where s':
    "invoke_all ls s1 = Inr s'" "parentNodeStack s' = parentNodeStack s1"
    "currentNode s' = currentNode s1"
    "length (heap s') = length (heap s1) + length ls"
    "lookup (heap s') p =
       Some (Composite k ((cs @ [?n]) @ [length (heap s1)..<length (heap s1) + length ls]))"
    "\<forall>r<length (heap s1). r \<noteq> p \<longrightarrow> lookup (heap s') r = lookup (heap s1) r"
    "map (lookup (heap s')) [length (heap s1)..<length (heap s1) + length ls] = map leaf_of ls"
    by blast
  have upt: "[?n..<?n + length (c # ls)] = ?n # [Suc ?n..<Suc ?n + length ls]"
    by (subst upt_rec) simp
  have "invoke_all (c # ls) s = Inr s'" using step s'(1) by simp
  moreover have "parentNodeStack s' = parentNodeStack s" "currentNode s' = currentNode s"
    using s'(2,3) by (simp_all add: s1_def)
  moreover have "length (heap s') = ?n + length (c # ls)"
    using s'(4) len1 by simp
  moreover have "lookup (heap s') p = Some (Composite k (cs @ [?n..<?n + length (c # ls)]))"
    using s'(5) len1 upt by simp
  moreover have "\<forall>r<?n. r \<noteq> p \<longrightarrow> lookup (heap s') r = lookup (heap s) r"
    using s'(6) len1 old1 by simp
  moreover have "map (lookup (heap s')) [?n..<?n + length (c # ls)] = map leaf_of (c # ls)"
  proof -
    have "lookup (heap s') ?n = Some obj"
      using s'(6) len1 p new1 by simp
    then show ?thesis using s'(7) len1 obj(1) upt by simp
  qed
  ultimately show ?case by blast
qed

text \<open>
  Claim C7. On an open composite (the top frame of the parent stack), attaching a child
  appends it to the composite's children and leaves the parent stack alone. A chain of
  \<open>N\<close> leaf calls succeeds, appends the \<open>N\<close> new leaves to the composite's children in the order of
  the calls, and leaves the parent stack as it was, the composite on top; the same holds
  for every shorter chain, so no attach changes the depth. A following
  \<^verbatim>\<open>endComposite()\<close> then pops the composite: the depth decreases by exactly one.
\<close>

theorem composite_stays_open:
  assumes "peek (parentNodeStack s) = Some p" "lookup (heap s) p = Some (Composite k cs)"
    "list_all is_leaf_call ls"
  shows "setChildOnParent child s = s\<lparr>heap := (heap s)[p := Composite k (cs @ [child])]\<rparr> \<and>
    (\<exists>s' s''. invoke_all ls s = Inr s' \<and> parentNodeStack s' = parentNodeStack s \<and>
    lookup (heap s') p = Some (Composite k (cs @ [length (heap s)..<length (heap s) + length ls])) \<and>
    map (lookup (heap s')) [length (heap s)..<length (heap s) + length ls] = map leaf_of ls \<and>
    endComposite s' = Inr s'' \<and> currentNode s'' = Some p \<and>
    parentNodeStack s'' = butlast (parentNodeStack s) \<and>
    Suc (length (parentNodeStack s'')) = length (parentNodeStack s))"
proof -
  have attach: "setChildOnParent child s = s\<lparr>heap := (heap s)[p := Composite k (cs @ [child])]\<rparr>"
    using assms(1,2) by (rule setChildOnParent_composite)
  from leaves_on_composite [OF assms] obtain s' where s':
    "invoke_all ls s = Inr s'" "parentNodeStack s' = parentNodeStack s"
    "lookup (heap s') p = Some (Composite k (cs @ [length (heap s)..<length (heap s) + length ls]))"
    "map (lookup (heap s')) [length (heap s)..<length (heap s) + length ls] = map leaf_of ls"
    by blast
  have top: "peek (parentNodeStack s') = Some p" using assms(1) s'(2) by simp
  have ne: "parentNodeStack s \<noteq> []" using assms(1) by (simp add: peek_Some_iff)
  let ?s'' = "s'\<lparr>currentNode := Some p, parentNodeStack := butlast (parentNodeStack s')\<rparr>"
  have "endComposite s' = Inr ?s''" using top s'(3) by (rule endComposite_composite)
  moreover have "Suc (length (parentNodeStack ?s'')) = length (parentNodeStack s)"
    using ne s'(2) by simp
  ultimately have "\<exists>s' s''. invoke_all ls s = Inr s' \<and> parentNodeStack s' = parentNodeStack s \<and>
    lookup (heap s') p = Some (Composite k (cs @ [length (heap s)..<length (heap s) + length ls])) \<and>
    map (lookup (heap s')) [length (heap s)..<length (heap s) + length ls] = map leaf_of ls \<and>
    endComposite s' = Inr s'' \<and> currentNode s'' = Some p \<and>
    parentNodeStack s'' = butlast (parentNodeStack s) \<and>
    Suc (length (parentNodeStack s'')) = length (parentNodeStack s)"
    using s' by auto
  then show ?thesis using attach by blast
qed

theorem composite_stays_open_witness:
  "invoke_all [Call_action always_Success, Call_logAction ''x'', Call_waitAction 2]
     (sequence () (begin_builder ()) :: (unit, unit) BehaviorTreeBuilder) =
     Inr \<lparr>the_context = (), currentNode = None, parentNodeStack = [0],
       heap = [Composite (Sequence ()) [1, 2, 3], ExecuteAction always_Success, LogAction ''x'',
         WaitAciton 2]\<rparr> \<and>
   endComposite \<lparr>the_context = (), currentNode = None, parentNodeStack = [0],
       heap = [Composite (Sequence ()) [1, 2, 3], ExecuteAction always_Success, LogAction ''x'',
         WaitAciton 2] :: (unit, unit) Behavior list\<rparr> =
     Inr \<lparr>the_context = (), currentNode = Some 0, parentNodeStack = [],
       heap = [Composite (Sequence ()) [1, 2, 3], ExecuteAction always_Success, LogAction ''x'',
         WaitAciton 2]\<rparr>"
proof -
  let ?s = "sequence () (begin_builder ()) :: (unit, unit) BehaviorTreeBuilder"
  let ?ls = "[Call_action always_Success, Call_logAction ''x'', Call_waitAction 2] :: (unit, unit) call list"
  have s: "?s = \<lparr>the_context = (), currentNode = None, parentNodeStack = [0],
      heap = [Composite (Sequence ()) []]\<rparr>"
    by (simp add: begin_builder_def sequence_def open_parent_def new_def pushParentNode_def push_def)
  have h1: "peek (parentNodeStack ?s) = Some 0" by (simp add: s peek_def)
  have h2: "lookup (heap ?s) 0 = Some (Composite (Sequence ()) [])" by (simp add: s lookup_def)
  have h3: "list_all is_leaf_call ?ls" by simp
  from composite_stays_open [OF h1 h2 h3, of 0] obtain s' s'' where r:
    "invoke_all ?ls ?s = Inr s'" "parentNodeStack s' = parentNodeStack ?s"
    "endComposite s' = Inr s''" "currentNode s'' = Some 0"
    by blast
  have run: "invoke_all ?ls ?s = Inr \<lparr>the_context = (), currentNode = None, parentNodeStack = [0],
       heap = [Composite (Sequence ()) [1, 2, 3], ExecuteAction always_Success, LogAction ''x'',
         WaitAciton 2]\<rparr>"
    by (simp add: s action_def logAction_def waitAction_def add_leaf_def Assert_isFalse_def new_def
        setChildOnParent_def peek_def instanceof_Composite_def lookup_def addChild_def)
  then have "s' = \<lparr>the_context = (), currentNode = None, parentNodeStack = [0],
       heap = [Composite (Sequence ()) [1, 2, 3], ExecuteAction always_Success, LogAction ''x'',
         WaitAciton 2]\<rparr>" using r(1) by simp
  moreover from this r(3) have "s'' = \<lparr>the_context = (), currentNode = Some 0, parentNodeStack = [],
       heap = [Composite (Sequence ()) [1, 2, 3], ExecuteAction always_Success, LogAction ''x'',
         WaitAciton 2]\<rparr>"
    by (simp add: endComposite_def Assert_isTrue_def instanceof_Composite_def peek_def lookup_def pop_def)
  ultimately show ?thesis using r(1,3) by simp
qed

subsection \<open>When build fails\<close>

lemma leaf_not_open: "is_leaf_call c \<Longrightarrow> \<not> is_open_call c"
  by (cases c) simp_all

lemma open_parent_control:
  assumes "frames_ok s"
  shows "the_context (open_parent obj s) = the_context s \<and>
    ((parentNodeStack (open_parent obj s) = parentNodeStack s @ [length (heap s)] \<and>
        currentNode (open_parent obj s) = currentNode s) \<or>
     (\<exists>p. parentNodeStack s \<noteq> [] \<and>
        parentNodeStack (open_parent obj s) = butlast (parentNodeStack s) @ [length (heap s)] \<and>
        currentNode (open_parent obj s) = Some p))"
  using assms
proof (cases s rule: frames_cases)
  case empty
  then show ?thesis by (simp add: open_parent_empty)
next
  case (composite p k cs)
  then show ?thesis by (simp add: open_parent_composite [OF composite])
next
  case (decorator p k c)
  then show ?thesis by (auto simp: open_parent_decorator [OF decorator] peek_Some_iff)
qed

lemma invoke_control:
  assumes "frames_ok s" "invoke c s = Inr s'"
  shows "the_context s' = the_context s \<and>
    (if is_open_call c
     then (\<exists>n. parentNodeStack s' = parentNodeStack s @ [n] \<and> currentNode s' = currentNode s) \<or>
       (\<exists>n p. parentNodeStack s \<noteq> [] \<and> parentNodeStack s' = butlast (parentNodeStack s) @ [n] \<and>
          currentNode s' = Some p)
     else (parentNodeStack s' = parentNodeStack s \<and> currentNode s' = currentNode s) \<or>
       (\<exists>p. parentNodeStack s \<noteq> [] \<and> parentNodeStack s' = butlast (parentNodeStack s) \<and>
          currentNode s' = Some p))"
proof (cases c rule: call_cases)
  case leaf_call
  then obtain obj where obj: "invoke c s = add_leaf obj s"
    by (rule invoke_leaf)
  have no: "\<not> is_open_call c" using leaf_call by (rule leaf_not_open)
  from assms(1) show ?thesis
  proof (cases s rule: frames_cases)
    case empty
    then show ?thesis using assms(2) obj by (simp add: add_leaf_empty)
  next
    case (composite p k cs)
    then show ?thesis using assms(2) obj no by (auto simp: add_leaf_composite [OF composite])
  next
    case (decorator p k c)
    then show ?thesis using assms(2) obj no
      by (auto simp: add_leaf_decorator [OF decorator] peek_Some_iff)
  qed
next
  case open_call
  then show ?thesis
  proof (cases rule: open_call_cases [where s = s])
    case (plain obj)
    then show ?thesis using assms open_call open_parent_control [of s obj] by auto
  next
    case (conditional f b)
    let ?s1 = "s\<lparr>heap := heap s @ [ExecuteActionConditional f]\<rparr>"
    let ?obj = "Decorator (ConditionalDecorator (length (heap s)) b) None"
    have "frames_ok ?s1" using assms(1) by (rule frames_ok_alloc)
    from open_parent_control [OF this, of ?obj] conditional assms(2) open_call
    show ?thesis by auto
  qed
next
  case end_call
  then obtain p k cs where "peek (parentNodeStack s) = Some p"
    "s' = s\<lparr>currentNode := Some p, parentNodeStack := butlast (parentNodeStack s)\<rparr>"
    using assms(2) by (auto elim: endComposite_Inr)
  then show ?thesis using end_call by (auto simp: peek_Some_iff)
qed

lemma current_unset_invoke:
  assumes "frames_ok s" "invoke c s = Inr s'" "length (parentNodeStack s) \<le> n"
    "currentNode s = None \<longleftrightarrow> length (parentNodeStack s) = n"
  shows "length (parentNodeStack s') \<le> n + opened [c] \<and>
    (currentNode s' = None \<longleftrightarrow> length (parentNodeStack s') = n + opened [c])"
proof (cases "is_open_call c")
  case True
  then consider (push) m where "parentNodeStack s' = parentNodeStack s @ [m]"
      "currentNode s' = currentNode s"
    | (swap) m p where "parentNodeStack s \<noteq> []"
      "parentNodeStack s' = butlast (parentNodeStack s) @ [m]" "currentNode s' = Some p"
    using invoke_control [OF assms(1,2)] by auto
  then show ?thesis
  proof cases
    case push
    then show ?thesis using True assms(3,4) by (simp add: opened_def)
  next
    case swap
    have "length (parentNodeStack s') = length (parentNodeStack s)"
      using swap(1,2) by simp
    then show ?thesis using True assms(3) swap(3) by (simp add: opened_def)
  qed
next
  case False
  then consider (keep) "parentNodeStack s' = parentNodeStack s" "currentNode s' = currentNode s"
    | (pop) p where "parentNodeStack s \<noteq> []"
      "parentNodeStack s' = butlast (parentNodeStack s)" "currentNode s' = Some p"
    using invoke_control [OF assms(1,2)] by auto
  then show ?thesis
  proof cases
    case keep
    then show ?thesis using False assms(3,4) by (simp add: opened_def)
  next
    case pop
    have "0 < length (parentNodeStack s)" using pop(1) by simp
    then have "length (parentNodeStack s') < length (parentNodeStack s)"
      using pop(2) by simp
    then show ?thesis using False assms(3) pop(3) by (simp add: opened_def)
  qed
qed

lemma current_unset_invoke_all:
  assumes "frames_ok s" "refs_ok s" "invoke_all cs s = Inr s'" "length (parentNodeStack s) \<le> n"
    "currentNode s = None \<longleftrightarrow> length (parentNodeStack s) = n"
  shows "the_context s' = the_context s \<and> length (parentNodeStack s') \<le> n + opened cs \<and>
    (currentNode s' = None \<longleftrightarrow> length (parentNodeStack s') = n + opened cs)"
  using assms
proof (induction cs arbitrary: s n)
  case Nil
  then show ?case by (simp add: opened_def)
next
  case (Cons c cs)
  from Cons.prems(3) obtain s1 where s1: "invoke c s = Inr s1" "invoke_all cs s1 = Inr s'"
    by (rule invoke_all_Cons_Inr)
  have inv1: "frames_ok s1" "refs_ok s1"
    using invariants_invoke [OF Cons.prems(1,2) s1(1)] by simp_all
  have ctx1: "the_context s1 = the_context s"
    using invoke_control [OF Cons.prems(1) s1(1)] by simp
  have cnt1: "length (parentNodeStack s1) \<le> n + opened [c]"
    "currentNode s1 = None \<longleftrightarrow> length (parentNodeStack s1) = n + opened [c]"
    using current_unset_invoke [OF Cons.prems(1) s1(1) Cons.prems(4,5)] by simp_all
  have op: "n + opened [c] + opened cs = n + opened (c # cs)"
    by (simp add: opened_def)
  from Cons.IH [OF inv1 s1(2) cnt1] show ?case
    using ctx1 op by simp
qed

text \<open>
  Claim C5, as amended. \<^verbatim>\<open>build()\<close> fails with \<open>EmptyTree\<close> exactly when no frame was
  ever closed during the chain of calls, that is when every frame that a call opened is
  still on the parent stack: \<^verbatim>\<open>_currentNode\<close> is set when a frame is popped
  (by \<^verbatim>\<open>endComposite\<close> or by a decorator closing itself) and never by an attach to an
  open composite. Whenever at least one frame has been closed, \<^verbatim>\<open>build(minInterval)\<close>
  succeeds and returns the tree of the captured context, \<^verbatim>\<open>_currentNode\<close> as its root,
  and \<open>minInterval\<close>.
\<close>

theorem build_fails_iff_nothing_closed:
  assumes "invoke_all cs (begin_builder ctx) = Inr s"
  shows "length (parentNodeStack s) \<le> opened cs \<and>
    (build period s = Inl EmptyTree \<longleftrightarrow> length (parentNodeStack s) = opened cs) \<and>
    (length (parentNodeStack s) < opened cs \<longleftrightarrow>
       (\<exists>node. currentNode s = Some node \<and> build period s = Inr (BehaviorTree ctx node period)))"
proof -
  from current_unset_invoke_all [OF frames_ok_begin refs_ok_begin assms, of 0]
  have ctx: "the_context s = ctx" and le: "length (parentNodeStack s) \<le> opened cs"
    and cur: "currentNode s = None \<longleftrightarrow> length (parentNodeStack s) = opened cs"
    by (simp_all add: begin_builder_def)
  show ?thesis
  proof (cases "currentNode s")
    case None
    then show ?thesis using le cur by (simp add: build_def)
  next
    case (Some node)
    then show ?thesis using le cur ctx by (simp add: build_def)
  qed
qed

subsection \<open>Decorators close themselves\<close>

lemmas run_defs =
  state_after_def build_after_def build_def begin_builder_def
  action_def actionR_def conditional_def conditionalR_def logAction_def waitAction_def subTree_def
  add_leaf_def Assert_isFalse_def Assert_isTrue_def new_def
  alwaysFail_def alwaysSucceed_def inverter_def sequence_def selector_def
  open_parent_def pushParentNode_def setChildOnParent_def endDecorator_def endComposite_def
  peek_def pop_def push_def instanceof_Composite_def instanceof_Decorator_def
  lookup_def addChild_def set_child_def Let_def

theorem build_fails_iff_nothing_closed_witness:
  "length (parentNodeStack (\<lparr>the_context = (), currentNode = Some 0, parentNodeStack = [],
       heap = [Composite (Sequence ()) [1], ExecuteAction always_Success]\<rparr>
       :: (unit, unit) BehaviorTreeBuilder))
     < opened [Call_sequence (), Call_action always_Success, Call_endComposite :: (unit, unit) call] \<and>
   build (1 / 5) (\<lparr>the_context = (), currentNode = Some 0, parentNodeStack = [],
       heap = [Composite (Sequence ()) [1], ExecuteAction always_Success]\<rparr>
       :: (unit, unit) BehaviorTreeBuilder) = Inr (BehaviorTree () 0 (1 / 5))"
proof -
  let ?cs = "[Call_sequence (), Call_action always_Success, Call_endComposite] :: (unit, unit) call list"
  let ?s = "\<lparr>the_context = (), currentNode = Some 0, parentNodeStack = [],
       heap = [Composite (Sequence ()) [1], ExecuteAction always_Success]\<rparr>
       :: (unit, unit) BehaviorTreeBuilder"
  have run: "invoke_all ?cs (begin_builder ()) = Inr ?s"
    by (simp add: run_defs)
  from build_fails_iff_nothing_closed [OF run, of "1 / 5"]
  have "length (parentNodeStack ?s) < opened ?cs \<longleftrightarrow>
      (\<exists>node. currentNode ?s = Some node \<and> build (1 / 5) ?s = Inr (BehaviorTree () node (1 / 5)))"
    by blast
  moreover have "length (parentNodeStack ?s) < opened ?cs" by (simp add: opened_def)
  ultimately show ?thesis by simp
qed

text \<open>
  The claim as first stated, with "attached or closed", fails on
  \<^verbatim>\<open>begin(ctx).sequence().action(f).build()\<close>: the leaf is attached to the sequence, and
  \<^verbatim>\<open>build\<close> still fails with \<open>EmptyTree\<close>, since no frame was closed.
\<close>

theorem build_after_attach_counterexample:
  "lookup (heap (state_after [Call_sequence (), Call_action always_Success] ()
      :: (unit, unit) BehaviorTreeBuilder)) 0 = Some (Composite (Sequence ()) [1]) \<and>
   lookup (heap (state_after [Call_sequence (), Call_action always_Success] ()
      :: (unit, unit) BehaviorTreeBuilder)) 1 = Some (ExecuteAction always_Success) \<and>
   build_after [Call_sequence (), Call_action always_Success :: (unit, unit) call] () (1 / 5)
     = Inl EmptyTree"
  by (simp add: run_defs)

text \<open>
  Claim C1, as amended. In every builder state with a decorator on top of the parent stack,
  attaching one child assigns that child as the decorator's single child, pops the
  decorator and sets it as \<^verbatim>\<open>_currentNode\<close>: the stack is one frame shallower than with
  the decorator on top. Relative to the state before the decorator was opened, a leaf
  attached right after the opening leaves the parent stack as it was before the opening
  when the decorator was opened on an empty stack or on a composite; when it was opened on
  another decorator, the opening had already closed that decorator, and the stack ends one
  frame shallower than before the opening.
\<close>

theorem decorator_self_close:
  "(peek (parentNodeStack s) = Some d \<and> lookup (heap s) d = Some (Decorator k c) \<longrightarrow>
      setChildOnParent child s =
        s\<lparr>heap := (heap s)[d := Decorator k (Some child)], currentNode := Some d,
          parentNodeStack := butlast (parentNodeStack s)\<rparr> \<and>
      Suc (length (parentNodeStack (setChildOnParent child s))) = length (parentNodeStack s)) \<and>
   (frames_ok s0 \<longrightarrow>
      (\<exists>s2. add_leaf obj (open_parent (Decorator k None) s0) = Inr s2 \<and>
         lookup (heap s2) (length (heap s0)) = Some (Decorator k (Some (Suc (length (heap s0))))) \<and>
         lookup (heap s2) (Suc (length (heap s0))) = Some obj \<and>
         currentNode s2 = Some (length (heap s0)) \<and>
         parentNodeStack s2 =
           (if instanceof_Decorator (heap s0) (peek (parentNodeStack s0))
            then butlast (parentNodeStack s0) else parentNodeStack s0)))"
proof (intro conjI impI)
  assume a: "peek (parentNodeStack s) = Some d \<and> lookup (heap s) d = Some (Decorator k c)"
  then have top: "peek (parentNodeStack s) = Some d" and dec: "lookup (heap s) d = Some (Decorator k c)"
    by simp_all
  show eq: "setChildOnParent child s =
        s\<lparr>heap := (heap s)[d := Decorator k (Some child)], currentNode := Some d,
          parentNodeStack := butlast (parentNodeStack s)\<rparr>"
    using top dec by (rule setChildOnParent_decorator)
  have "parentNodeStack s \<noteq> []" using top by (simp add: peek_Some_iff)
  then show "Suc (length (parentNodeStack (setChildOnParent child s))) = length (parentNodeStack s)"
    by (simp add: eq)
next
  assume ok: "frames_ok s0"
  let ?n = "length (heap s0)"
  let ?s1 = "open_parent (Decorator k None) s0"
  have s1: "peek (parentNodeStack ?s1) = Some ?n \<and> lookup (heap ?s1) ?n = Some (Decorator k None) \<and>
      length (heap ?s1) = Suc ?n \<and>
      butlast (parentNodeStack ?s1) =
           (if instanceof_Decorator (heap s0) (peek (parentNodeStack s0))
            then butlast (parentNodeStack s0) else parentNodeStack s0)"
    using ok
  proof (cases s0 rule: frames_cases)
    case empty
    then show ?thesis
      by (simp add: open_parent_empty peek_def instanceof_Decorator_def)
  next
    case (composite p k' cs)
    have "p < ?n" using composite(2) by (rule lookup_SomeD)
    then show ?thesis using composite
      by (simp add: open_parent_composite [OF composite] lookup_update instanceof_Decorator_def)
  next
    case (decorator p k' c')
    have "p < ?n" using decorator(2) by (rule lookup_SomeD)
    then show ?thesis using decorator
      by (simp add: open_parent_decorator [OF decorator] lookup_update instanceof_Decorator_def)
  qed
  then have top1: "peek (parentNodeStack ?s1) = Some ?n"
    and dec1: "lookup (heap ?s1) ?n = Some (Decorator k None)"
    and len1: "length (heap ?s1) = Suc ?n" by simp_all
  let ?s2 = "?s1\<lparr>heap := (heap ?s1 @ [obj])[?n := Decorator k (Some (length (heap ?s1)))],
      currentNode := Some ?n, parentNodeStack := butlast (parentNodeStack ?s1)\<rparr>"
  have "add_leaf obj ?s1 = Inr ?s2" using top1 dec1 by (rule add_leaf_decorator)
  moreover have "lookup (heap ?s2) ?n = Some (Decorator k (Some (Suc ?n)))"
    using len1 by (simp add: lookup_update)
  moreover have "lookup (heap ?s2) (Suc ?n) = Some obj"
    using len1 by (simp add: lookup_update lookup_def nth_append)
  moreover have "currentNode ?s2 = Some ?n" by simp
  moreover have "parentNodeStack ?s2 =
           (if instanceof_Decorator (heap s0) (peek (parentNodeStack s0))
            then butlast (parentNodeStack s0) else parentNodeStack s0)"
    using s1 by simp
  ultimately show "\<exists>s2. add_leaf obj ?s1 = Inr s2 \<and>
         lookup (heap s2) ?n = Some (Decorator k (Some (Suc ?n))) \<and>
         lookup (heap s2) (Suc ?n) = Some obj \<and>
         currentNode s2 = Some ?n \<and>
         parentNodeStack s2 =
           (if instanceof_Decorator (heap s0) (peek (parentNodeStack s0))
            then butlast (parentNodeStack s0) else parentNodeStack s0)"
    by blast
qed

subsection \<open>A leaf first, and a parent opened on a decorator\<close>

lemma context_invoke_all:
  assumes "frames_ok s" "refs_ok s" "invoke_all cs s = Inr s'"
  shows "the_context s' = the_context s"
  using assms
proof (induction cs arbitrary: s)
  case Nil
  then show ?case by simp
next
  case (Cons c cs)
  from Cons.prems(3) obtain s1 where s1: "invoke c s = Inr s1" "invoke_all cs s1 = Inr s'"
    by (rule invoke_all_Cons_Inr)
  have "frames_ok s1" "refs_ok s1"
    using invariants_invoke [OF Cons.prems(1,2) s1(1)] by simp_all
  then have "the_context s' = the_context s1" using s1(2) by (rule Cons.IH)
  then show ?case using invoke_control [OF Cons.prems(1) s1(1)] by simp
qed

theorem decorator_self_close_witness:
  "setChildOnParent 7 (\<lparr>the_context = (), currentNode = None, parentNodeStack = [0, 1],
       heap = [Composite (Sequence ()) [1], Decorator Inverter None]\<rparr>
       :: (unit, unit) BehaviorTreeBuilder) =
     \<lparr>the_context = (), currentNode = Some 1, parentNodeStack = [0],
       heap = [Composite (Sequence ()) [1], Decorator Inverter (Some 7)]\<rparr> \<and>
   add_leaf (LogAction ''x'') (open_parent (Decorator AlwaysFail None)
       (\<lparr>the_context = (), currentNode = None, parentNodeStack = [0],
         heap = [Composite (Sequence ()) []]\<rparr> :: (unit, unit) BehaviorTreeBuilder)) =
     Inr \<lparr>the_context = (), currentNode = Some 1, parentNodeStack = [0],
       heap = [Composite (Sequence ()) [1], Decorator AlwaysFail (Some 2), LogAction ''x'']\<rparr> \<and>
   add_leaf (LogAction ''x'') (open_parent (Decorator AlwaysFail None)
       (\<lparr>the_context = (), currentNode = None, parentNodeStack = [0],
         heap = [Decorator Inverter None]\<rparr> :: (unit, unit) BehaviorTreeBuilder)) =
     Inr \<lparr>the_context = (), currentNode = Some 1, parentNodeStack = [],
       heap = [Decorator Inverter (Some 1), Decorator AlwaysFail (Some 2), LogAction ''x'']\<rparr>"
proof -
  let ?s = "\<lparr>the_context = (), currentNode = None, parentNodeStack = [0, 1],
       heap = [Composite (Sequence ()) [1], Decorator Inverter None]\<rparr>
       :: (unit, unit) BehaviorTreeBuilder"
  let ?a = "\<lparr>the_context = (), currentNode = None, parentNodeStack = [0],
         heap = [Composite (Sequence ()) []]\<rparr> :: (unit, unit) BehaviorTreeBuilder"
  let ?b = "\<lparr>the_context = (), currentNode = None, parentNodeStack = [0],
         heap = [Decorator Inverter None]\<rparr> :: (unit, unit) BehaviorTreeBuilder"
  have pre: "peek (parentNodeStack ?s) = Some 1 \<and> lookup (heap ?s) 1 = Some (Decorator Inverter None)"
    by (simp add: peek_def lookup_def)
  have oka: "frames_ok ?a"
    by (simp add: frames_ok_def instanceof_Composite_def lookup_def)
  have okb: "frames_ok ?b"
    by (simp add: frames_ok_def instanceof_Decorator_def instanceof_Composite_def lookup_def)
  have 1: "setChildOnParent 7 ?s =
      ?s\<lparr>heap := (heap ?s)[1 := Decorator Inverter (Some 7)], currentNode := Some 1,
        parentNodeStack := butlast (parentNodeStack ?s)\<rparr>"
    using decorator_self_close [of ?s 1 Inverter None 7 ?a "LogAction ''x''"] pre by blast
  obtain a2 where a2: "add_leaf (LogAction ''x'') (open_parent (Decorator AlwaysFail None) ?a) = Inr a2"
    "currentNode a2 = Some (length (heap ?a))"
    using decorator_self_close [of ?s 1 AlwaysFail None 7 ?a "LogAction ''x''"] oka by blast
  obtain b2 where b2: "add_leaf (LogAction ''x'') (open_parent (Decorator AlwaysFail None) ?b) = Inr b2"
    "currentNode b2 = Some (length (heap ?b))"
    using decorator_self_close [of ?s 1 AlwaysFail None 7 ?b "LogAction ''x''"] okb by blast
  have "add_leaf (LogAction ''x'') (open_parent (Decorator AlwaysFail None) ?a) =
     Inr \<lparr>the_context = (), currentNode = Some 1, parentNodeStack = [0],
       heap = [Composite (Sequence ()) [1], Decorator AlwaysFail (Some 2), LogAction ''x'']\<rparr>"
    by (simp add: run_defs)
  moreover have "add_leaf (LogAction ''x'') (open_parent (Decorator AlwaysFail None) ?b) =
     Inr \<lparr>the_context = (), currentNode = Some 1, parentNodeStack = [],
       heap = [Decorator Inverter (Some 1), Decorator AlwaysFail (Some 2), LogAction ''x'']\<rparr>"
    by (simp add: run_defs)
  ultimately show ?thesis using 1 a2 b2 by simp
qed

text \<open>
  The depth does not always return to what it was before the decorator was opened. After
  \<^verbatim>\<open>begin(ctx).alwaysFail()\<close> the depth is 1; \<^verbatim>\<open>inverter()\<close> closes the first decorator and
  leaves the inverter on top, childless; attaching a leaf then closes the inverter, and
  the depth is 0.
\<close>

theorem decorator_on_decorator_counterexample:
  "length (parentNodeStack (state_after [Call_alwaysFail] () :: (unit, unit) BehaviorTreeBuilder)) = 1 \<and>
   peek (parentNodeStack (state_after [Call_alwaysFail, Call_inverter] ()
     :: (unit, unit) BehaviorTreeBuilder)) = Some 1 \<and>
   lookup (heap (state_after [Call_alwaysFail, Call_inverter] ()
     :: (unit, unit) BehaviorTreeBuilder)) 1 = Some (Decorator Inverter None) \<and>
   lookup (heap (state_after [Call_alwaysFail, Call_inverter, Call_action always_Success] ()
     :: (unit, unit) BehaviorTreeBuilder)) 1 = Some (Decorator Inverter (Some 2)) \<and>
   length (parentNodeStack (state_after [Call_alwaysFail, Call_inverter, Call_action always_Success] ()
     :: (unit, unit) BehaviorTreeBuilder)) = 0"
  by (simp add: run_defs)

text \<open>
  Claim C6, as amended. The chain \<^verbatim>\<open>begin(ctx).action(f).build()\<close> does not produce a tree:
  the parent stack of a new builder is empty, so \<^verbatim>\<open>action\<close> fails with
  \<open>EmptyParentStack\<close> and leaves the builder untouched, and \<^verbatim>\<open>build()\<close> is not reached.
  With the leaf inside a composite, \<^verbatim>\<open>begin(ctx).sequence().action(f).endComposite().build()\<close>
  succeeds, and the root of its tree is the composite whose only child is the leaf
  holding \<open>f\<close>.
\<close>

theorem leaf_needs_parent:
  "invoke_all [Call_action f] (begin_builder ctx) = Inl (EmptyParentStack, begin_builder ctx) \<and>
   build_after [Call_action f] ctx period = Inl EmptyParentStack \<and>
   build_after [Call_sequence a, Call_action f, Call_endComposite] ctx period =
     Inr (BehaviorTree ctx 0 period) \<and>
   heap (state_after [Call_sequence a, Call_action f, Call_endComposite] ctx) =
     [Composite (Sequence a) [1], ExecuteAction f]"
  by (simp add: run_defs)

theorem leaf_needs_parent_witness:
  "build_after [Call_action always_Success :: (unit, unit) call] () (1 / 5) = Inl EmptyParentStack \<and>
   build_after [Call_sequence (), Call_action always_Success, Call_endComposite :: (unit, unit) call]
     () (1 / 5) = Inr (BehaviorTree () 0 (1 / 5))"
  using leaf_needs_parent [of always_Success "()" "1 / 5" "()"] by blast

text \<open>
  The scenario as first stated fails at its first call.
\<close>

theorem leaf_first_counterexample:
  "invoke_all [Call_action always_Success] (begin_builder () :: (unit, unit) BehaviorTreeBuilder)
     = Inl (EmptyParentStack, begin_builder ()) \<and>
   build_after [Call_action always_Success :: (unit, unit) call] () (1 / 5) = Inl EmptyParentStack"
  by (simp add: run_defs)

text \<open>
  Claim C8, as amended. Opening a decorator and then issuing another open-parent call
  before any leaf is attached assigns the new node as the single child of the first
  decorator, pops the first decorator off the parent stack and sets it as
  \<^verbatim>\<open>_currentNode\<close>, and pushes the new node in its place. The first decorator is
  therefore not left on the stack: in every state that a chain of calls on a new builder
  reaches, every frame below the top frame is a composite, so two decorators are never on
  the parent stack together.
\<close>

theorem open_on_decorator:
  "(peek (parentNodeStack s) = Some d \<and> lookup (heap s) d = Some (Decorator k c) \<longrightarrow>
      open_parent obj s =
        s\<lparr>heap := (heap s @ [obj])[d := Decorator k (Some (length (heap s)))],
          currentNode := Some d,
          parentNodeStack := butlast (parentNodeStack s) @ [length (heap s)]\<rparr>) \<and>
   (invoke_all cs (begin_builder ctx) = Inr s' \<longrightarrow>
      list_all (\<lambda>r. instanceof_Composite (heap s') (Some r)) (butlast (parentNodeStack s')))"
proof (intro conjI impI)
  assume "peek (parentNodeStack s) = Some d \<and> lookup (heap s) d = Some (Decorator k c)"
  then show "open_parent obj s =
        s\<lparr>heap := (heap s @ [obj])[d := Decorator k (Some (length (heap s)))],
          currentNode := Some d,
          parentNodeStack := butlast (parentNodeStack s) @ [length (heap s)]\<rparr>"
    by (simp add: open_parent_decorator)
next
  assume run: "invoke_all cs (begin_builder ctx) = Inr s'"
  have "frames_ok s'"
    using invariants_invoke_all [OF frames_ok_begin refs_ok_begin run] by simp
  then show "list_all (\<lambda>r. instanceof_Composite (heap s') (Some r)) (butlast (parentNodeStack s'))"
    by (simp add: frames_ok_def)
qed

theorem open_on_decorator_witness:
  "open_parent (Decorator Inverter None) (\<lparr>the_context = (), currentNode = None,
       parentNodeStack = [0], heap = [Decorator AlwaysFail None]\<rparr> :: (unit, unit) BehaviorTreeBuilder) =
     \<lparr>the_context = (), currentNode = Some 0, parentNodeStack = [1],
       heap = [Decorator AlwaysFail (Some 1), Decorator Inverter None]\<rparr> \<and>
   list_all (\<lambda>r. instanceof_Composite
       [Composite (Sequence ()) [1], Composite (Selector ()) [2], Decorator Inverter None
         :: (unit, unit) Behavior] (Some r)) (butlast [0, 1, 2])"
proof -
  let ?s = "\<lparr>the_context = (), currentNode = None,
       parentNodeStack = [0], heap = [Decorator AlwaysFail None]\<rparr> :: (unit, unit) BehaviorTreeBuilder"
  let ?cs = "[Call_sequence (), Call_selector (), Call_inverter] :: (unit, unit) call list"
  let ?s' = "\<lparr>the_context = (), currentNode = None, parentNodeStack = [0, 1, 2],
       heap = [Composite (Sequence ()) [1], Composite (Selector ()) [2], Decorator Inverter None]\<rparr>
       :: (unit, unit) BehaviorTreeBuilder"
  have pre: "peek (parentNodeStack ?s) = Some 0 \<and> lookup (heap ?s) 0 = Some (Decorator AlwaysFail None)"
    by (simp add: peek_def lookup_def)
  have run: "invoke_all ?cs (begin_builder ()) = Inr ?s'"
    by (simp add: run_defs)
  from open_on_decorator [of ?s 0 AlwaysFail None "Decorator Inverter None" ?cs "()" ?s'] pre run
  show ?thesis by simp
qed

text \<open>
  After \<^verbatim>\<open>begin(ctx).alwaysFail().inverter()\<close> the first decorator is not on the parent
  stack and is not childless: it holds the inverter and is \<^verbatim>\<open>_currentNode\<close>.
\<close>

theorem two_decorators_counterexample:
  "parentNodeStack (state_after [Call_alwaysFail, Call_inverter] ()
     :: (unit, unit) BehaviorTreeBuilder) = [1] \<and>
   currentNode (state_after [Call_alwaysFail, Call_inverter] ()
     :: (unit, unit) BehaviorTreeBuilder) = Some 0 \<and>
   heap (state_after [Call_alwaysFail, Call_inverter] () :: (unit, unit) BehaviorTreeBuilder) =
     [Decorator AlwaysFail (Some 1), Decorator Inverter None]"
  by (simp add: run_defs)

subsection \<open>The most recently closed frame\<close>

lemma tree_untouched:
  assumes "invoke_all before (begin_builder ctx) = Inr s"
    and "currentNode s = Some c"
    and "\<forall>r \<in> set (parentNodeStack s). \<not> reaches (heap s) c r"
    and "invoke_all cs s = Inr s'"
  shows "the_context s' = ctx \<and>
    (\<forall>r. reaches (heap s') c r \<longleftrightarrow> reaches (heap s) c r) \<and>
    (\<forall>r. reaches (heap s') c r \<longrightarrow>
       r \<notin> set (parentNodeStack s') \<and> r < length (heap s) \<and> lookup (heap s') r = lookup (heap s) r)"
proof -
  have inv: "frames_ok s" "refs_ok s"
    using invariants_invoke_all [OF frames_ok_begin refs_ok_begin assms(1)] by simp_all
  have "the_context s = ctx"
    using context_invoke_all [OF frames_ok_begin refs_ok_begin assms(1)]
    by (simp add: begin_builder_def)
  then have ctx: "the_context s' = ctx"
    using context_invoke_all [OF inv assms(4)] by simp
  have c: "c < length (heap s)" using inv(2) assms(2) by (simp add: refs_ok_iff)
  have closed: "heap_closed (heap s)" using inv(2) by (simp add: refs_ok_iff)
  let ?X = "{r. reaches (heap s) c r}"
  have X: "\<forall>r \<in> ?X. r < length (heap s) \<and> r \<notin> set (parentNodeStack s)"
    using assms(3) reaches_valid [OF _ closed c] by auto
  have stable: "\<forall>r \<in> ?X. lookup (heap s') r = lookup (heap s) r \<and> r \<notin> set (parentNodeStack s')"
    using inv assms(4) X by (rule frame_invoke_all)
  then have same: "\<forall>x. reaches (heap s) c x \<longrightarrow> lookup (heap s') x = lookup (heap s) x"
    by simp
  have eq: "reaches (heap s') c r \<longleftrightarrow> reaches (heap s) c r" for r
    using same by (rule reaches_stable)
  have "r \<notin> set (parentNodeStack s') \<and> r < length (heap s) \<and> lookup (heap s') r = lookup (heap s) r"
    if "reaches (heap s') c r" for r
    using that eq X stable by simp
  then show ?thesis using eq ctx by blast
qed

lemma open_parent_effect:
  assumes "frames_ok s"
  obtains (push) "parentNodeStack (open_parent obj s) = parentNodeStack s @ [length (heap s)]"
      "currentNode (open_parent obj s) = currentNode s"
  | (swap) p where "peek (parentNodeStack s) = Some p"
      "parentNodeStack (open_parent obj s) = butlast (parentNodeStack s) @ [length (heap s)]"
      "currentNode (open_parent obj s) = Some p"
  using assms
proof (cases s rule: frames_cases)
  case empty
  then show ?thesis using push by (simp add: open_parent_empty)
next
  case (composite p k cs)
  then show ?thesis using push by (simp add: open_parent_composite [OF composite])
next
  case (decorator p k c)
  then show ?thesis using swap [of p] by (simp add: open_parent_decorator [OF decorator])
qed

lemma invoke_effect:
  assumes "frames_ok s" "invoke c s = Inr s1"
  obtains (keep) "\<not> is_open_call c" "parentNodeStack s1 = parentNodeStack s"
      "currentNode s1 = currentNode s"
  | (push) n where "is_open_call c" "length (heap s) \<le> n"
      "parentNodeStack s1 = parentNodeStack s @ [n]" "currentNode s1 = currentNode s"
  | (pop) p where "\<not> is_open_call c" "peek (parentNodeStack s) = Some p"
      "parentNodeStack s1 = butlast (parentNodeStack s)" "currentNode s1 = Some p"
  | (swap) n p where "is_open_call c" "length (heap s) \<le> n" "peek (parentNodeStack s) = Some p"
      "parentNodeStack s1 = butlast (parentNodeStack s) @ [n]" "currentNode s1 = Some p"
proof (cases c rule: call_cases)
  case leaf_call
  then obtain obj where obj: "invoke c s = add_leaf obj s"
    by (rule invoke_leaf)
  have no: "\<not> is_open_call c" using leaf_call by (rule leaf_not_open)
  from assms(1) show ?thesis
  proof (cases s rule: frames_cases)
    case empty
    then show ?thesis using assms(2) obj by (simp add: add_leaf_empty)
  next
    case (composite p k cs)
    have "s1 = s\<lparr>heap := (heap s @ [obj])[p := Composite k (cs @ [length (heap s)])]\<rparr>"
      using assms(2) obj by (simp add: add_leaf_composite [OF composite])
    then show ?thesis using keep no by simp
  next
    case (decorator p k c')
    have "s1 = s\<lparr>heap := (heap s @ [obj])[p := Decorator k (Some (length (heap s)))],
        currentNode := Some p, parentNodeStack := butlast (parentNodeStack s)\<rparr>"
      using assms(2) obj by (simp add: add_leaf_decorator [OF decorator])
    then show ?thesis using pop [of p] no decorator(1) by simp
  qed
next
  case open_call
  then show ?thesis
  proof (cases rule: open_call_cases [where s = s])
    case (plain obj)
    then have s1: "s1 = open_parent obj s" using assms(2) by simp
    from assms(1) show ?thesis
    proof (cases rule: open_parent_effect [where obj = obj])
      case push
      then show ?thesis using open_call s1 that(2) [of "length (heap s)"] by simp
    next
      case (swap p)
      then show ?thesis using open_call s1 that(4) [of "length (heap s)" p] by simp
    qed
  next
    case (conditional f b)
    let ?t = "s\<lparr>heap := heap s @ [ExecuteActionConditional f]\<rparr>"
    let ?obj = "Decorator (ConditionalDecorator (length (heap s)) b) None"
    have s1: "s1 = open_parent ?obj ?t" using assms(2) conditional by simp
    have "frames_ok ?t" using assms(1) by (rule frames_ok_alloc)
    then show ?thesis
    proof (cases rule: open_parent_effect [where obj = ?obj])
      case push
      then show ?thesis using open_call s1 that(2) [of "Suc (length (heap s))"] by simp
    next
      case (swap p)
      then show ?thesis using open_call s1 that(4) [of "Suc (length (heap s))" p] by simp
    qed
  qed
next
  case end_call
  then obtain p k cs where "peek (parentNodeStack s) = Some p"
    "s1 = s\<lparr>currentNode := Some p, parentNodeStack := butlast (parentNodeStack s)\<rparr>"
    using assms(2) by (auto elim: endComposite_Inr)
  then show ?thesis using end_call pop [of p] by simp
qed

lemma distinct_invoke:
  assumes "frames_ok s" "refs_ok s" "distinct (parentNodeStack s)" "invoke c s = Inr s1"
  shows "distinct (parentNodeStack s1)"
  using assms(1,4)
proof (cases rule: invoke_effect)
  case keep
  then show ?thesis using assms(3) by simp
next
  case (push n)
  have "n \<notin> set (parentNodeStack s)" using assms(2) push(2) by (auto simp: refs_ok_iff)
  then show ?thesis using assms(3) push(3) by simp
next
  case (pop p)
  then show ?thesis using assms(3) by (simp add: distinct_butlast)
next
  case (swap n p)
  have "n \<notin> set (parentNodeStack s)" using assms(2) swap(2) by (auto simp: refs_ok_iff)
  then have "n \<notin> set (butlast (parentNodeStack s))" by (auto dest: in_set_butlastD)
  then show ?thesis using assms(3) swap(4) by (simp add: distinct_butlast)
qed

lemma top_not_below:
  assumes "distinct xs" "peek xs = Some p"
  shows "p \<notin> set (butlast xs)"
proof -
  have "xs = butlast xs @ [p]" using assms(2) by (rule peek_SomeD)
  then have "distinct (butlast xs @ [p])" using assms(1) by simp
  then show ?thesis by simp
qed

lemma current_is_popped:
  assumes "frames_ok s" "refs_ok s" "distinct (parentNodeStack s)" "invoke c s = Inr s1"
  shows "currentNode s1 = (case popped s s1 of None \<Rightarrow> currentNode s | Some p \<Rightarrow> Some p)"
  using assms(1,4)
proof (cases rule: invoke_effect)
  case keep
  then show ?thesis by (auto simp: popped_def peek_def)
next
  case (push n)
  then show ?thesis by (auto simp: popped_def peek_def)
next
  case (pop p)
  have "p \<notin> set (butlast (parentNodeStack s))" using assms(3) pop(2) by (rule top_not_below)
  then show ?thesis using pop by (simp add: popped_def)
next
  case (swap n p)
  have "p \<notin> set (butlast (parentNodeStack s))" using assms(3) swap(3) by (rule top_not_below)
  moreover have "p < length (heap s)"
    using assms(2) peek_in_set [OF swap(3)] by (simp add: refs_ok_iff)
  ultimately show ?thesis using swap by (simp add: popped_def)
qed

lemma current_is_last_closed:
  assumes "frames_ok s" "refs_ok s" "distinct (parentNodeStack s)" "invoke_all cs s = Inr s'"
  shows "currentNode s' = last_closed cs s (currentNode s)"
  using assms
proof (induction cs arbitrary: s)
  case Nil
  then show ?case by simp
next
  case (Cons c cs)
  from Cons.prems(4) obtain s1 where s1: "invoke c s = Inr s1" "invoke_all cs s1 = Inr s'"
    by (rule invoke_all_Cons_Inr)
  have inv1: "frames_ok s1" "refs_ok s1"
    using invariants_invoke [OF Cons.prems(1,2) s1(1)] by simp_all
  have d1: "distinct (parentNodeStack s1)"
    using Cons.prems(1,2,3) s1(1) by (rule distinct_invoke)
  have "currentNode s' = last_closed cs s1 (currentNode s1)"
    using inv1 d1 s1(2) by (rule Cons.IH)
  then show ?case
    using s1(1) current_is_popped [OF Cons.prems(1,2,3) s1(1)] by simp
qed

lemma nothing_closed_invoke:
  assumes "frames_ok s" "invoke c s = Inr s1"
  shows "length (parentNodeStack s1) \<le> length (parentNodeStack s) + opened [c] \<and>
    (length (parentNodeStack s1) = length (parentNodeStack s) + opened [c] \<longrightarrow>
       currentNode s1 = currentNode s)"
  using assms
proof (cases rule: invoke_effect)
  case keep
  then show ?thesis by (simp add: opened_def)
next
  case (push n)
  then show ?thesis by (simp add: opened_def)
next
  case (pop p)
  have "parentNodeStack s \<noteq> []" using pop(2) by (simp add: peek_Some_iff)
  then have "length (butlast (parentNodeStack s)) < length (parentNodeStack s)" by simp
  then show ?thesis using pop by (simp add: opened_def)
next
  case (swap n p)
  have "parentNodeStack s \<noteq> []" using swap(3) by (simp add: peek_Some_iff)
  then have "length (butlast (parentNodeStack s) @ [n]) = length (parentNodeStack s)" by simp
  then show ?thesis using swap by (simp add: opened_def)
qed

lemma nothing_closed_invoke_all:
  assumes "frames_ok s" "refs_ok s" "invoke_all cs s = Inr s'"
  shows "length (parentNodeStack s') \<le> length (parentNodeStack s) + opened cs \<and>
    (length (parentNodeStack s') = length (parentNodeStack s) + opened cs \<longrightarrow>
       currentNode s' = currentNode s)"
  using assms
proof (induction cs arbitrary: s)
  case Nil
  then show ?case by (simp add: opened_def)
next
  case (Cons c cs)
  from Cons.prems(3) obtain s1 where s1: "invoke c s = Inr s1" "invoke_all cs s1 = Inr s'"
    by (rule invoke_all_Cons_Inr)
  have inv1: "frames_ok s1" "refs_ok s1"
    using invariants_invoke [OF Cons.prems(1,2) s1(1)] by simp_all
  note step = nothing_closed_invoke [OF Cons.prems(1) s1(1)]
  note rest = Cons.IH [OF inv1 s1(2)]
  have op: "opened (c # cs) = opened [c] + opened cs" by (simp add: opened_def)
  have le: "length (parentNodeStack s') \<le> length (parentNodeStack s) + opened (c # cs)"
    using step rest op by linarith
  moreover have "currentNode s' = currentNode s"
    if eq: "length (parentNodeStack s') = length (parentNodeStack s) + opened (c # cs)"
  proof -
    have "length (parentNodeStack s1) = length (parentNodeStack s) + opened [c]"
      using step rest op eq by linarith
    moreover from this have "length (parentNodeStack s') = length (parentNodeStack s1) + opened cs"
      using op eq by linarith
    ultimately show ?thesis using step rest by simp
  qed
  ultimately show ?case by blast
qed

lemma reaches_path3:
  assumes "lookup h a = Some oa" "b \<in> set (children_of oa)"
    "lookup h b = Some ob" "c \<in> set (children_of ob)"
    "lookup h c = Some oc" "d \<in> set (children_of oc)"
  shows "reaches h a c" "reaches h a d"
proof -
  have "reaches h a b" using reaches_self assms(1,2) by (rule reaches_snoc)
  then show "reaches h a c" using assms(3,4) by (rule reaches_snoc)
  then show "reaches h a d" using assms(5,6) by (rule reaches_snoc)
qed

subsection \<open>Open frames at build time\<close>

lemma reaches_cases:
  assumes "reaches h a r"
  shows "a = r \<or> (\<exists>obj c. lookup h a = Some obj \<and> c \<in> set (children_of obj) \<and> reaches h c r)"
  using assms by (cases rule: reaches.cases) auto

text \<open>
  Claim C9, as amended. \<^verbatim>\<open>build()\<close> never looks at the parent stack. After any chain of
  calls on a new builder \<^verbatim>\<open>_currentNode\<close> is the most recently closed frame, the last one
  popped off the parent stack, and \<^verbatim>\<open>build()\<close> fails with \<open>EmptyTree\<close> when no frame was ever
  closed and otherwise returns the tree of the context, that frame as root, and the
  period, whatever frames are still open. Later calls that close nothing (every frame
  that was open or that they open is still on the stack) leave \<^verbatim>\<open>_currentNode\<close> as it
  was. If moreover no frame that was open is a node of the tree below \<^verbatim>\<open>_currentNode\<close>,
  then \<^verbatim>\<open>build()\<close> after the later calls returns the tree rooted at that same node, and
  that tree is exactly as it was before them: no frame that is open is in it, and no node
  that the later calls created, so no child attached to an open frame. (A frame opened
  directly on a decorator becomes that decorator's child while the decorator becomes
  \<^verbatim>\<open>_currentNode\<close>: such an open frame, and what is attached to it, is part of the
  returned tree.)
\<close>

theorem build_ignores_open_frames:
  assumes "invoke_all before (begin_builder ctx) = Inr s"
    and "invoke_all later s = Inr s'"
  shows "currentNode s' = last_closed (before @ later) (begin_builder ctx) None \<and>
    build period s' =
      (case last_closed (before @ later) (begin_builder ctx) None of
         None \<Rightarrow> Inl EmptyTree
       | Some c \<Rightarrow> Inr (BehaviorTree ctx c period)) \<and>
    (length (parentNodeStack s') = length (parentNodeStack s) + opened later \<longrightarrow>
       currentNode s' = currentNode s \<and>
       (\<forall>c. currentNode s = Some c \<and> (\<forall>r \<in> set (parentNodeStack s). \<not> reaches (heap s) c r) \<longrightarrow>
          build period s' = Inr (BehaviorTree ctx c period) \<and>
          (\<forall>r. reaches (heap s') c r \<longleftrightarrow> reaches (heap s) c r) \<and>
          (\<forall>r. reaches (heap s') c r \<longrightarrow>
             r \<notin> set (parentNodeStack s') \<and> r < length (heap s) \<and>
             lookup (heap s') r = lookup (heap s) r)))"
proof -
  have inv: "frames_ok s" "refs_ok s"
    using invariants_invoke_all [OF frames_ok_begin refs_ok_begin assms(1)] by simp_all
  have whole: "invoke_all (before @ later) (begin_builder ctx) = Inr s'"
    using assms by (simp add: invoke_all_append)
  have d0: "distinct (parentNodeStack (begin_builder ctx :: ('a, 'b) BehaviorTreeBuilder))"
    by (simp add: begin_builder_def)
  have "currentNode s' =
      last_closed (before @ later) (begin_builder ctx)
        (currentNode (begin_builder ctx :: ('a, 'b) BehaviorTreeBuilder))"
    using frames_ok_begin refs_ok_begin d0 whole by (rule current_is_last_closed)
  then have recent: "currentNode s' = last_closed (before @ later) (begin_builder ctx) None"
    by (simp add: begin_builder_def)
  have "the_context s' = the_context (begin_builder ctx :: ('a, 'b) BehaviorTreeBuilder)"
    using frames_ok_begin refs_ok_begin whole by (rule context_invoke_all)
  then have ctx: "the_context s' = ctx" by (simp add: begin_builder_def)
  have built: "build period s' =
      (case last_closed (before @ later) (begin_builder ctx) None of
         None \<Rightarrow> Inl EmptyTree
       | Some c \<Rightarrow> Inr (BehaviorTree ctx c period))"
    using recent ctx by (simp add: build_def split: option.splits)
  have same: "currentNode s' = currentNode s"
    if "length (parentNodeStack s') = length (parentNodeStack s) + opened later"
    using nothing_closed_invoke_all [OF inv assms(2)] that by simp
  have tree: "build period s' = Inr (BehaviorTree ctx c period) \<and>
      (\<forall>r. reaches (heap s') c r \<longleftrightarrow> reaches (heap s) c r) \<and>
      (\<forall>r. reaches (heap s') c r \<longrightarrow>
         r \<notin> set (parentNodeStack s') \<and> r < length (heap s) \<and>
         lookup (heap s') r = lookup (heap s) r)"
    if "length (parentNodeStack s') = length (parentNodeStack s) + opened later"
      and "currentNode s = Some c" and "\<forall>r \<in> set (parentNodeStack s). \<not> reaches (heap s) c r"
    for c
  proof -
    have "currentNode s' = Some c" using same that(1,2) by simp
    then have "build period s' = Inr (BehaviorTree ctx c period)"
      using ctx by (simp add: build_def)
    then show ?thesis
      using tree_untouched [OF assms(1) that(2,3) assms(2)] by simp
  qed
  show ?thesis using recent built same tree by blast
qed

theorem build_ignores_open_frames_witness:
  "last_closed
     ([Call_sequence (), Call_alwaysFail, Call_action always_Success] @
      [Call_selector (), Call_logAction ''x''])
     (begin_builder () :: (unit, unit) BehaviorTreeBuilder) None = Some 1 \<and>
   build (1 / 5) (\<lparr>the_context = (), currentNode = Some 1, parentNodeStack = [0, 3],
        heap = [Composite (Sequence ()) [1, 3], Decorator AlwaysFail (Some 2),
          ExecuteAction always_Success, Composite (Selector ()) [4], LogAction ''x'']\<rparr>
        :: (unit, unit) BehaviorTreeBuilder)
     = Inr (BehaviorTree () 1 (1 / 5)) \<and>
   \<not> reaches [Composite (Sequence ()) [1, 3], Decorator AlwaysFail (Some 2),
          ExecuteAction always_Success, Composite (Selector ()) [4], LogAction ''x''
          :: (unit, unit) Behavior] 1 0 \<and>
   \<not> reaches [Composite (Sequence ()) [1, 3], Decorator AlwaysFail (Some 2),
          ExecuteAction always_Success, Composite (Selector ()) [4], LogAction ''x''
          :: (unit, unit) Behavior] 1 3 \<and>
   \<not> reaches [Composite (Sequence ()) [1, 3], Decorator AlwaysFail (Some 2),
          ExecuteAction always_Success, Composite (Selector ()) [4], LogAction ''x''
          :: (unit, unit) Behavior] 1 4"
proof -
  let ?before = "[Call_sequence (), Call_alwaysFail, Call_action always_Success]
    :: (unit, unit) call list"
  let ?later = "[Call_selector (), Call_logAction ''x''] :: (unit, unit) call list"
  let ?hs = "[Composite (Sequence ()) [1], Decorator AlwaysFail (Some 2),
    ExecuteAction always_Success] :: (unit, unit) Behavior list"
  let ?ht = "[Composite (Sequence ()) [1, 3], Decorator AlwaysFail (Some 2),
    ExecuteAction always_Success, Composite (Selector ()) [4], LogAction ''x'']
    :: (unit, unit) Behavior list"
  let ?s = "\<lparr>the_context = (), currentNode = Some 1, parentNodeStack = [0], heap = ?hs\<rparr>"
  let ?t = "\<lparr>the_context = (), currentNode = Some 1, parentNodeStack = [0, 3], heap = ?ht\<rparr>"
  have run_before: "invoke_all ?before (begin_builder ()) = Inr ?s" by (simp add: run_defs)
  have run_later: "invoke_all ?later ?s = Inr ?t" by (simp add: run_defs)
  have depth: "length (parentNodeStack ?t) = length (parentNodeStack ?s) + opened ?later"
    by (simp add: opened_def)
  have leaf: "\<not> reaches ?hs 2 0"
    using reaches_cases [of ?hs 2 0] by (auto simp: lookup_def)
  have "\<not> reaches ?hs 1 0"
    using reaches_cases [of ?hs 1 0] leaf by (auto simp: lookup_def)
  then have off: "\<forall>r \<in> set (parentNodeStack ?s). \<not> reaches (heap ?s) 1 r" by simp
  note inst = build_ignores_open_frames [OF run_before run_later, of "1 / 5"]
  have cur: "currentNode ?s = Some 1" by simp
  from inst have "currentNode ?t = last_closed (?before @ ?later) (begin_builder ()) None"
    by blast
  moreover have "currentNode ?t = Some 1" by simp
  ultimately have recent: "last_closed (?before @ ?later) (begin_builder ()) None = Some 1"
    by (rule trans [OF sym])
  from inst depth cur off
  have tree: "build (1 / 5) ?t = Inr (BehaviorTree () 1 (1 / 5)) \<and>
      (\<forall>r. reaches (heap ?t) 1 r \<longrightarrow>
         r \<notin> set (parentNodeStack ?t) \<and> r < length (heap ?s) \<and>
         lookup (heap ?t) r = lookup (heap ?s) r)"
    by blast
  then have built: "build (1 / 5) ?t = Inr (BehaviorTree () 1 (1 / 5))"
    and absent: "\<forall>r. reaches (heap ?t) 1 r \<longrightarrow>
         r \<notin> set (parentNodeStack ?t) \<and> r < length (heap ?s) \<and>
         lookup (heap ?t) r = lookup (heap ?s) r"
    by blast+
  have "\<not> reaches ?ht 1 0" using absent [rule_format, of 0] by auto
  moreover have "\<not> reaches ?ht 1 3" using absent [rule_format, of 3] by auto
  moreover have "\<not> reaches ?ht 1 4" using absent [rule_format, of 4] by auto
  ultimately show ?thesis using recent built by blast
qed

text \<open>
  Open frames can be part of the tree that \<^verbatim>\<open>build\<close> returns. In
  \<^verbatim>\<open>begin(ctx).alwaysFail().sequence().selector().action(f).build()\<close> the decorator closes
  when the sequence is opened on it; the selector is opened after that and is still open,
  with the leaf attached to it, when \<^verbatim>\<open>build\<close> returns the tree rooted at the decorator:
  the selector and the leaf are nodes of that tree.
\<close>

theorem open_frame_in_tree_counterexample:
  "build_after [Call_alwaysFail, Call_sequence (), Call_selector (), Call_action always_Success
      :: (unit, unit) call] () (1 / 5) = Inr (BehaviorTree () 0 (1 / 5)) \<and>
   parentNodeStack (state_after [Call_alwaysFail, Call_sequence (), Call_selector (),
      Call_action always_Success] () :: (unit, unit) BehaviorTreeBuilder) = [1, 2] \<and>
   reaches (heap (state_after [Call_alwaysFail, Call_sequence (), Call_selector (),
      Call_action always_Success] () :: (unit, unit) BehaviorTreeBuilder)) 0 2 \<and>
   reaches (heap (state_after [Call_alwaysFail, Call_sequence (), Call_selector (),
      Call_action always_Success] () :: (unit, unit) BehaviorTreeBuilder)) 0 3"
proof -
  let ?cs = "[Call_alwaysFail, Call_sequence (), Call_selector (), Call_action always_Success]
    :: (unit, unit) call list"
  let ?h = "[Decorator AlwaysFail (Some 1), Composite (Sequence ()) [2], Composite (Selector ()) [3],
    ExecuteAction always_Success] :: (unit, unit) Behavior list"
  have st: "state_after ?cs () = \<lparr>the_context = (), currentNode = Some 0, parentNodeStack = [1, 2],
      heap = ?h\<rparr>"
    by (simp add: run_defs)
  have b: "build_after ?cs () (1 / 5) = Inr (BehaviorTree () 0 (1 / 5))"
    by (simp add: run_defs)
  have "reaches ?h 0 2 \<and> reaches ?h 0 3"
    using reaches_path3 [of ?h 0 "Decorator AlwaysFail (Some 1)" 1 "Composite (Sequence ()) [2]" 2
        "Composite (Selector ()) [3]" 3]
    by (simp add: lookup_def)
  then show ?thesis using st b by simp
qed

end
